theory Spec2Isabelle
  imports Main "HOL-Library.Word"
begin

unbundle bit_operations_syntax

section \<open>The RP2040 I2C master driver (machine\_rp2040\_i2c.go)\<close>

subsection \<open>Device constants\<close>

text \<open>
  The driver names bit masks and bit positions of the generated package \<open>device/rp\<close>,
  which is not part of the sources. They are taken as a parameter: a record with one
  field per constant the driver uses, under the name it has in the source. Every general
  theorem below holds for all values of these constants.
\<close>

record rp =
  I2C0_IC_FS_SCL_HCNT_IC_FS_SCL_HCNT_Msk :: "32 word"
  I2C0_IC_FS_SCL_LCNT_IC_FS_SCL_LCNT_Msk :: "32 word"
  I2C0_IC_ENABLE_ENABLE_DISABLED :: "32 word"
  I2C0_IC_CON_SPEED_FAST :: "32 word"
  I2C0_IC_CON_SPEED_Msk :: "32 word"
  I2C0_IC_CON_SPEED_Pos :: nat
  I2C0_IC_CON_MASTER_MODE :: "32 word"
  I2C0_IC_CON_IC_SLAVE_DISABLE :: "32 word"
  I2C0_IC_CON_IC_RESTART_EN :: "32 word"
  I2C0_IC_CON_TX_EMPTY_CTRL :: "32 word"
  I2C0_IC_DMA_CR_TDMAE :: "32 word"
  I2C0_IC_DMA_CR_RDMAE :: "32 word"
  I2C0_IC_SDA_HOLD_IC_SDA_RX_HOLD_Msk :: "32 word"
  I2C0_IC_SDA_HOLD_IC_SDA_RX_HOLD_Pos :: nat
  I2C0_IC_DATA_CMD_RESTART_Pos :: nat
  I2C0_IC_DATA_CMD_STOP_Pos :: nat
  I2C0_IC_DATA_CMD_CMD :: "32 word"
  I2C0_IC_RAW_INTR_STAT_TX_EMPTY :: "32 word"
  I2C0_IC_RAW_INTR_STAT_STOP_DET :: "32 word"
  I2C0_IC_TX_ABRT_SOURCE_ABRT_7B_ADDR_NOACK :: "32 word"
  I2C0_IC_TX_ABRT_SOURCE_ABRT_TXDATA_NOACK :: "32 word"
  I2C0_IC_COMP_PARAM_1_TX_BUFFER_DEPTH_Pos :: "32 word"
  RESETS_RESET_I2C0 :: "32 word"
  RESETS_RESET_I2C1 :: "32 word"

text \<open>
  One value of the parameter, for runs on concrete inputs: the constants as the RP2040
  register map has them (16-bit SCL count fields, TX\_EMPTY bit 4, STOP\_DET bit 9,
  address-NACK bit 0, data-NACK bit 3, STOP bit 9 and RESTART bit 10 of the command
  register, CMD bit 8).
\<close>

definition rp2040 :: rp where
  "rp2040 = \<lparr>
     I2C0_IC_FS_SCL_HCNT_IC_FS_SCL_HCNT_Msk = 0xFFFF,
     I2C0_IC_FS_SCL_LCNT_IC_FS_SCL_LCNT_Msk = 0xFFFF,
     I2C0_IC_ENABLE_ENABLE_DISABLED = 0,
     I2C0_IC_CON_SPEED_FAST = 2,
     I2C0_IC_CON_SPEED_Msk = 6,
     I2C0_IC_CON_SPEED_Pos = 1,
     I2C0_IC_CON_MASTER_MODE = 0x1,
     I2C0_IC_CON_IC_SLAVE_DISABLE = 0x40,
     I2C0_IC_CON_IC_RESTART_EN = 0x20,
     I2C0_IC_CON_TX_EMPTY_CTRL = 0x100,
     I2C0_IC_DMA_CR_TDMAE = 0x2,
     I2C0_IC_DMA_CR_RDMAE = 0x1,
     I2C0_IC_SDA_HOLD_IC_SDA_RX_HOLD_Msk = 0xFF0000,
     I2C0_IC_SDA_HOLD_IC_SDA_RX_HOLD_Pos = 16,
     I2C0_IC_DATA_CMD_RESTART_Pos = 10,
     I2C0_IC_DATA_CMD_STOP_Pos = 9,
     I2C0_IC_DATA_CMD_CMD = 0x100,
     I2C0_IC_RAW_INTR_STAT_TX_EMPTY = 0x10,
     I2C0_IC_RAW_INTR_STAT_STOP_DET = 0x200,
     I2C0_IC_TX_ABRT_SOURCE_ABRT_7B_ADDR_NOACK = 0x1,
     I2C0_IC_TX_ABRT_SOURCE_ABRT_TXDATA_NOACK = 0x8,
     I2C0_IC_COMP_PARAM_1_TX_BUFFER_DEPTH_Pos = 16,
     RESETS_RESET_I2C0 = 0x8,
     RESETS_RESET_I2C1 = 0x10 \<rparr>"

text \<open>
  Modelled from the spec: \<open>MHz\<close> is a constant of the machine package declared
  outside the sources; the spec gives the input clock \<open>125 * MHz\<close> as 125\_000\_000.
\<close>

definition MHz :: "32 word" where
  "MHz = 1000000"

subsection \<open>Registers and controller state\<close>

text \<open>
  The registers the driver touches: those of the bus instance \<open>i2c.Bus\<close> and the two
  registers of the reset controller \<open>rp.RESETS\<close>.
\<close>

datatype reg =
    IC_CON | IC_TAR | IC_DATA_CMD | IC_FS_SCL_HCNT | IC_FS_SCL_LCNT
  | IC_RAW_INTR_STAT | IC_RX_TL | IC_TX_TL | IC_CLR_TX_ABRT | IC_CLR_STOP_DET
  | IC_ENABLE | IC_RXFLR | IC_SDA_HOLD | IC_TX_ABRT_SOURCE | IC_DMA_CR
  | IC_FS_SPKLEN | RESET | RESET_DONE

datatype access = Store reg "32 word" | Load reg "32 word"

datatype bus = I2C0 | I2C1

text \<open>
  The struct \<open>I2C\<close> with the hardware made explicit. \<open>regs\<close> holds what was last
  stored in each register; \<open>accesses\<close> is the log of every volatile load and store in
  program order; \<open>feed\<close> is what the controller will answer to the loads of status and
  FIFO registers, one value per load, in order. A poll loop that finds the feed empty has
  not returned: the result is \<open>None\<close>.
\<close>

record I2C =
  Bus :: bus
  restartOnNext :: bool
  regs :: "reg \<Rightarrow> 32 word"
  accesses :: "access list"
  feed :: "32 word list"

datatype error =
    errInvalidI2CBaudrate
  | errInvalidTgtAddr
  | errI2CTimeout
  | errI2CGeneric
  | i2cBuffError int
  | runtime_panic string

subsection \<open>Volatile register operations\<close>

text \<open>\<open>Register32.Set\<close>: a volatile store.\<close>

definition Set_reg :: "reg \<Rightarrow> 32 word \<Rightarrow> I2C \<Rightarrow> I2C" where
  "Set_reg r v s = s\<lparr>regs := (regs s)(r := v), accesses := accesses s @ [Store r v]\<rparr>"

text \<open>
  \<open>Register32.Get\<close> on a status or FIFO register: a volatile load answered by the
  controller, that is by the head of the feed.
\<close>

definition Get_reg :: "reg \<Rightarrow> I2C \<Rightarrow> (32 word \<times> I2C) option" where
  "Get_reg r s =
     (case feed s of
        [] \<Rightarrow> None
      | v # vs \<Rightarrow> Some (v, s\<lparr>accesses := accesses s @ [Load r v], feed := vs\<rparr>))"

text \<open>
  \<open>ReplaceBits\<close>, \<open>SetBits\<close> and \<open>ClearBits\<close> load a configuration register,
  which holds what was last stored there, and store the changed value.
\<close>

definition ReplaceBits :: "reg \<Rightarrow> 32 word \<Rightarrow> 32 word \<Rightarrow> nat \<Rightarrow> I2C \<Rightarrow> I2C" where
  "ReplaceBits r v msk pos s =
     (let old = regs s r;
          s1 = s\<lparr>accesses := accesses s @ [Load r old]\<rparr>
      in Set_reg r ((old AND NOT (push_bit pos msk)) OR push_bit pos v) s1)"

definition SetBits :: "reg \<Rightarrow> 32 word \<Rightarrow> I2C \<Rightarrow> I2C" where
  "SetBits r v s =
     (let old = regs s r;
          s1 = s\<lparr>accesses := accesses s @ [Load r old]\<rparr>
      in Set_reg r (old OR v) s1)"

definition ClearBits :: "reg \<Rightarrow> 32 word \<Rightarrow> I2C \<Rightarrow> I2C" where
  "ClearBits r v s =
     (let old = regs s r;
          s1 = s\<lparr>accesses := accesses s @ [Load r old]\<rparr>
      in Set_reg r (old AND NOT v) s1)"

subsection \<open>Small helpers\<close>

definition boolToBit :: "bool \<Rightarrow> 32 word" where
  "boolToBit a = (if a then 1 else 0)"

definition umax32 :: "32 word \<Rightarrow> 32 word \<Rightarrow> 32 word" where
  "umax32 a b = (if a > b then a else b)"

definition isReservedI2CAddr :: "8 word \<Rightarrow> bool" where
  "isReservedI2CAddr addr \<longleftrightarrow> addr AND 0x78 = 0 \<or> addr AND 0x78 = 0x78"

definition makeI2CBuffError :: "nat \<Rightarrow> error" where
  "makeI2CBuffError idx = i2cBuffError (int idx)"

definition enable :: "I2C \<Rightarrow> I2C" where
  "enable s = Set_reg IC_ENABLE 1 s"

definition disable :: "I2C \<Rightarrow> I2C" where
  "disable s = Set_reg IC_ENABLE 0 s"

subsection \<open>SetBaudrate\<close>

text \<open>
  The arithmetic is that of \<open>uint32\<close>. A requested rate of 0 divides by zero, which in
  Go is a run-time panic. The three locals are computed by functions of their own so that
  theorems can name them.
\<close>

definition freqin :: "32 word" where
  "freqin = 125 * MHz"

definition period_of :: "32 word \<Rightarrow> 32 word" where
  "period_of br = (freqin + br div 2) div br"

definition lcnt_of :: "32 word \<Rightarrow> 32 word" where
  "lcnt_of br = period_of br * 3 div 5"

definition hcnt_of :: "32 word \<Rightarrow> 32 word" where
  "hcnt_of br = period_of br - lcnt_of br"

definition sdaTxHoldCnt_of :: "32 word \<Rightarrow> 32 word" where
  "sdaTxHoldCnt_of br =
     (if br \<ge> 1000000 then ((freqin * 3) div 25000000) + 1
      else ((freqin * 3) div 10000000) + 1)"

definition SetBaudrate :: "rp \<Rightarrow> 32 word \<Rightarrow> I2C \<Rightarrow> (error + unit) \<times> I2C" where
  "SetBaudrate c br s =
     (if br = 0 then (Inl (runtime_panic ''integer divide by zero''), s)
      else
        let lcnt = lcnt_of br;
            hcnt = hcnt_of br
        in
        if hcnt > I2C0_IC_FS_SCL_HCNT_IC_FS_SCL_HCNT_Msk c \<or> hcnt < 8
           \<or> lcnt > I2C0_IC_FS_SCL_LCNT_IC_FS_SCL_LCNT_Msk c \<or> lcnt < 8
        then (Inl errInvalidI2CBaudrate, s)
        else
          let sdaTxHoldCnt = sdaTxHoldCnt_of br in
          if sdaTxHoldCnt \<le> lcnt - 2 then (Inl errInvalidI2CBaudrate, s)
          else
            let s1 = disable s;
                s2 = Set_reg IC_ENABLE (I2C0_IC_ENABLE_ENABLE_DISABLED c) s1;
                s3 = ReplaceBits IC_CON (I2C0_IC_CON_SPEED_FAST c) (I2C0_IC_CON_SPEED_Msk c)
                       (I2C0_IC_CON_SPEED_Pos c) s2;
                s4 = Set_reg IC_FS_SCL_HCNT hcnt s3;
                s5 = Set_reg IC_FS_SCL_LCNT lcnt s4;
                s6 = Set_reg IC_FS_SPKLEN (umax32 1 (lcnt div 16)) s5;
                s7 = ReplaceBits IC_SDA_HOLD sdaTxHoldCnt
                       (I2C0_IC_SDA_HOLD_IC_SDA_RX_HOLD_Msk c)
                       (I2C0_IC_SDA_HOLD_IC_SDA_RX_HOLD_Pos c) s6
            in (Inr (), enable s7))"

text \<open>
  \<open>deinit\<close>, \<open>reset\<close> and \<open>init\<close> (which \<open>Configure\<close> calls). The wait of
  \<open>reset\<close> polls the status register RESET\_DONE until \<open>HasBits\<close> finds a bit of
  \<open>resetVal\<close> set there.
\<close>

definition deinit :: "rp \<Rightarrow> I2C \<Rightarrow> 32 word \<times> I2C" where
  "deinit c s =
     (let resetVal = (case Bus s of I2C0 \<Rightarrow> RESETS_RESET_I2C0 c | I2C1 \<Rightarrow> RESETS_RESET_I2C1 c)
      in (resetVal, SetBits RESET resetVal s))"

function reset_wait :: "32 word \<Rightarrow> I2C \<Rightarrow> I2C option" where
  "reset_wait resetVal s =
     (case Get_reg RESET_DONE s of
        None \<Rightarrow> None
      | Some (v, s1) \<Rightarrow> if v AND resetVal \<noteq> 0 then Some s1 else reset_wait resetVal s1)"
  by pat_completeness auto
termination
  by (relation "measure (\<lambda>(v, s). length (feed s))")
     (auto simp: Get_reg_def split: list.splits)

declare reset_wait.simps [simp del]

definition reset :: "rp \<Rightarrow> I2C \<Rightarrow> I2C option" where
  "reset c s =
     (case deinit c s of (resetVal, s1) \<Rightarrow> reset_wait resetVal (ClearBits RESET resetVal s1))"

definition init :: "rp \<Rightarrow> 32 word \<Rightarrow> I2C \<Rightarrow> ((error + unit) \<times> I2C) option" where
  "init c Frequency s =
     (case reset c s of
        None \<Rightarrow> None
      | Some s1 \<Rightarrow>
          let s2 = (disable s1)\<lparr>restartOnNext := False\<rparr>;
              s3 = Set_reg IC_CON
                     (push_bit (I2C0_IC_CON_SPEED_Pos c) (I2C0_IC_CON_SPEED_FAST c)
                      OR I2C0_IC_CON_MASTER_MODE c OR I2C0_IC_CON_IC_SLAVE_DISABLE c
                      OR I2C0_IC_CON_IC_RESTART_EN c OR I2C0_IC_CON_TX_EMPTY_CTRL c) s2;
              s4 = Set_reg IC_TX_TL 0 s3;
              s5 = Set_reg IC_RX_TL 0 s4;
              s6 = Set_reg IC_DMA_CR (I2C0_IC_DMA_CR_TDMAE c OR I2C0_IC_DMA_CR_RDMAE c) s5
          in Some (SetBaudrate c Frequency s6))"

definition Configure :: "rp \<Rightarrow> 32 word \<Rightarrow> I2C \<Rightarrow> ((error + unit) \<times> I2C) option" where
  "Configure c Frequency s = init c Frequency s"

subsection \<open>The write path: tx\<close>

text \<open>
  The two poll loops of \<open>tx\<close> have one shape: they load IC\_RAW\_INTR\_STAT and go on
  while the given flag (TX\_EMPTY in the first loop, STOP\_DET in the second) is set; inside,
  an active timeout check stores \<open>nostop\<close> in \<open>restartOnNext\<close> and returns
  \<open>errI2CTimeout\<close>. The result \<open>True\<close> stands for that return.
\<close>

function tx_wait :: "32 word \<Rightarrow> bool \<Rightarrow> bool \<Rightarrow> I2C \<Rightarrow> (bool \<times> I2C) option" where
  "tx_wait flag timeoutCheck nostop s =
     (case Get_reg IC_RAW_INTR_STAT s of
        None \<Rightarrow> None
      | Some (v, s1) \<Rightarrow>
          if v AND flag \<noteq> 0 then
            if timeoutCheck then Some (True, s1\<lparr>restartOnNext := nostop\<rparr>)
            else tx_wait flag timeoutCheck nostop s1
          else Some (False, s1))"
  by pat_completeness auto
termination
  by (relation "measure (\<lambda>(f, t, n, s). length (feed s))")
     (auto simp: Get_reg_def split: list.splits)

declare tx_wait.simps [simp del]

text \<open>
  One round of the \<open>for\<close> loop of \<open>tx\<close>, for the byte at index \<open>byteCtr\<close>. The
  result is \<open>Inl errI2CTimeout\<close> when a poll loop returned from \<open>tx\<close>, and otherwise
  the locals \<open>abort\<close> and \<open>abortReason\<close> as the round leaves them. The round has no
  \<open>break\<close>.
\<close>

definition tx_round ::
  "rp \<Rightarrow> 8 word list \<Rightarrow> bool \<Rightarrow> bool \<Rightarrow> nat \<Rightarrow> bool \<Rightarrow> I2C
    \<Rightarrow> ((error + bool \<times> 32 word) \<times> I2C) option" where
  "tx_round c tx nostop timeoutCheck byteCtr abort s =
     (let first = (byteCtr = 0);
          last = (byteCtr = length tx - 1);
          s1 = Set_reg IC_DATA_CMD
                 (push_bit (I2C0_IC_DATA_CMD_RESTART_Pos c) (boolToBit (first \<and> restartOnNext s))
                  OR push_bit (I2C0_IC_DATA_CMD_STOP_Pos c) (boolToBit (last \<and> \<not> nostop))
                  OR ucast (tx ! byteCtr)) s
      in
      case tx_wait (I2C0_IC_RAW_INTR_STAT_TX_EMPTY c) timeoutCheck nostop s1 of
        None \<Rightarrow> None
      | Some (True, s2) \<Rightarrow> Some (Inl errI2CTimeout, s2)
      | Some (False, s2) \<Rightarrow>
         (case Get_reg IC_TX_ABRT_SOURCE s2 of
            None \<Rightarrow> None
          | Some (abortReason, s3) \<Rightarrow>
             (case (if abortReason \<noteq> 0
                    then map_option (\<lambda>(_, s4). (True, s4)) (Get_reg IC_CLR_TX_ABRT s3)
                    else Some (abort, s3)) of
                None \<Rightarrow> None
              | Some (abort1, s4) \<Rightarrow>
                  if abort1 \<or> (last \<and> \<not> nostop) then
                    (case tx_wait (I2C0_IC_RAW_INTR_STAT_STOP_DET c) timeoutCheck nostop s4 of
                       None \<Rightarrow> None
                     | Some (True, s5) \<Rightarrow> Some (Inl errI2CTimeout, s5)
                     | Some (False, s5) \<Rightarrow>
                         map_option (\<lambda>(_, s6). (Inr (abort1, abortReason), s6))
                           (Get_reg IC_CLR_STOP_DET s5))
                  else Some (Inr (abort1, abortReason), s4))))"

text \<open>
  The \<open>for\<close> loop of \<open>tx\<close>: from \<open>byteCtr\<close> up to \<open>tlen\<close>, whatever \<open>abort\<close> is.
  It ends with the locals \<open>(abort, abortReason, byteCtr)\<close>, or with the error of a
  \<open>return\<close> inside the loop. In the \<open>switch\<close> after the loop the case of the data-NACK
  bit falls through to the default case, so both are the one \<open>else\<close> of the model.
\<close>

function tx_loop ::
  "rp \<Rightarrow> 8 word list \<Rightarrow> bool \<Rightarrow> bool \<Rightarrow> nat \<Rightarrow> bool \<Rightarrow> 32 word \<Rightarrow> I2C
    \<Rightarrow> ((error + bool \<times> 32 word \<times> nat) \<times> I2C) option" where
  "tx_loop c tx nostop timeoutCheck byteCtr abort abortReason s =
     (if byteCtr < length tx then
        (case tx_round c tx nostop timeoutCheck byteCtr abort s of
           None \<Rightarrow> None
         | Some (Inl e, s1) \<Rightarrow> Some (Inl e, s1)
         | Some (Inr (abort1, abortReason1), s1) \<Rightarrow>
             tx_loop c tx nostop timeoutCheck (Suc byteCtr) abort1 abortReason1 s1)
      else Some (Inr (abort, abortReason, byteCtr), s))"
  by pat_completeness auto
termination
  by (relation "measure (\<lambda>(c, tx, n, t, byteCtr, a, r, s). length tx - byteCtr)") auto

declare tx_loop.simps [simp del]

definition tx :: "rp \<Rightarrow> 8 word \<Rightarrow> 8 word list \<Rightarrow> bool \<Rightarrow> 64 word \<Rightarrow> I2C
    \<Rightarrow> ((error + unit) \<times> I2C) option" where
  "tx c addr txb nostop timeout s =
     (if addr \<ge> 0x80 \<or> isReservedI2CAddr addr then Some (Inl errInvalidTgtAddr, s)
      else if length txb = 0 then Some (Inr (), s)
      else
        let s1 = enable (Set_reg IC_TAR (ucast addr) (disable s));
            timeoutCheck = (timeout \<noteq> 0)
        in
        case tx_loop c txb nostop timeoutCheck 0 False 0 s1 of
          None \<Rightarrow> None
        | Some (Inl e, s2) \<Rightarrow> Some (Inl e, s2)
        | Some (Inr (abort, abortReason, byteCtr), s2) \<Rightarrow>
            let err =
                  (if abort then
                     (if abortReason = 0
                         \<or> abortReason AND I2C0_IC_TX_ABRT_SOURCE_ABRT_7B_ADDR_NOACK c \<noteq> 0
                      then Inl errI2CGeneric
                      else Inl (makeI2CBuffError byteCtr))
                   else Inr ())
            in Some (err, s2\<lparr>restartOnNext := nostop\<rparr>))"

subsection \<open>The read path: rx\<close>

text \<open>\<open>writeAvailable\<close> and \<open>readAvailable\<close>: both load IC\_RXFLR.\<close>

definition writeAvailable :: "rp \<Rightarrow> I2C \<Rightarrow> (32 word \<times> I2C) option" where
  "writeAvailable c s =
     map_option (\<lambda>(v, s1). (I2C0_IC_COMP_PARAM_1_TX_BUFFER_DEPTH_Pos c - v, s1))
       (Get_reg IC_RXFLR s)"

definition readAvailable :: "I2C \<Rightarrow> (32 word \<times> I2C) option" where
  "readAvailable s = Get_reg IC_RXFLR s"

text \<open>The first inner loop of \<open>rx\<close>: spin while \<open>writeAvailable\<close> is 0.\<close>

function rx_wait_write :: "rp \<Rightarrow> I2C \<Rightarrow> I2C option" where
  "rx_wait_write c s =
     (case writeAvailable c s of
        None \<Rightarrow> None
      | Some (n, s1) \<Rightarrow> if n = 0 then rx_wait_write c s1 else Some s1)"
  by pat_completeness auto
termination
  by (relation "measure (\<lambda>(c, s). length (feed s))")
     (auto simp: writeAvailable_def Get_reg_def split: list.splits)

declare rx_wait_write.simps [simp del]

text \<open>
  The second inner loop of \<open>rx\<close>. Its condition loads IC\_RXFLR first and looks at
  \<open>abort\<close> second; its body loads the abort source, sets \<open>abort\<close>, and returns
  \<open>errI2CTimeout\<close> from \<open>rx\<close> when the timeout check is active (the result
  \<open>Inl errI2CTimeout\<close>). Otherwise it ends with the locals \<open>(abort, abortReason)\<close>.
\<close>

function rx_wait_read :: "bool \<Rightarrow> bool \<Rightarrow> bool \<Rightarrow> 32 word \<Rightarrow> I2C
    \<Rightarrow> ((error + bool \<times> 32 word) \<times> I2C) option" where
  "rx_wait_read timeoutCheck nostop abort abortReason s =
     (case readAvailable s of
        None \<Rightarrow> None
      | Some (n, s1) \<Rightarrow>
          if n = 0 \<and> \<not> abort then
            (case Get_reg IC_TX_ABRT_SOURCE s1 of
               None \<Rightarrow> None
             | Some (abortReason1, s2) \<Rightarrow>
                 let abort1 = (if abortReason1 \<noteq> 0 then True else abort) in
                 if timeoutCheck then Some (Inl errI2CTimeout, s2\<lparr>restartOnNext := nostop\<rparr>)
                 else rx_wait_read timeoutCheck nostop abort1 abortReason1 s2)
          else Some (Inr (abort, abortReason), s1))"
  by pat_completeness auto
termination
  by (relation "measure (\<lambda>(t, n, a, r, s). length (feed s))")
     (auto simp: readAvailable_def Get_reg_def split: list.splits)

declare rx_wait_read.simps [simp del]

text \<open>
  The \<open>for\<close> loop of \<open>rx\<close> over the buffer \<open>rxb\<close>, with its \<open>break\<close> on abort.
\<close>

function rx_loop ::
  "rp \<Rightarrow> 8 word list \<Rightarrow> bool \<Rightarrow> bool \<Rightarrow> nat \<Rightarrow> bool \<Rightarrow> 32 word \<Rightarrow> I2C
    \<Rightarrow> ((error + bool \<times> 32 word \<times> nat) \<times> 8 word list \<times> I2C) option" where
  "rx_loop c rxb nostop timeoutCheck byteCtr abort abortReason s =
     (if byteCtr < length rxb then
        let first = (byteCtr = 0);
            last = (byteCtr = length rxb - 1)
        in
        case rx_wait_write c s of
          None \<Rightarrow> None
        | Some s1 \<Rightarrow>
           (let s2 = Set_reg IC_DATA_CMD
                       (push_bit (I2C0_IC_DATA_CMD_RESTART_Pos c)
                          (boolToBit (first \<and> restartOnNext s1))
                        OR push_bit (I2C0_IC_DATA_CMD_STOP_Pos c) (boolToBit (last \<and> \<not> nostop))
                        OR I2C0_IC_DATA_CMD_CMD c) s1
            in
            case rx_wait_read timeoutCheck nostop abort abortReason s2 of
              None \<Rightarrow> None
            | Some (Inl e, s3) \<Rightarrow> Some (Inl e, rxb, s3)
            | Some (Inr (abort1, abortReason1), s3) \<Rightarrow>
                if abort1 then Some (Inr (abort1, abortReason1, byteCtr), rxb, s3)
                else
                  (case Get_reg IC_DATA_CMD s3 of
                     None \<Rightarrow> None
                   | Some (v, s4) \<Rightarrow>
                       rx_loop c (rxb[byteCtr := ucast v]) nostop timeoutCheck (Suc byteCtr)
                         abort1 abortReason1 s4))
      else Some (Inr (abort, abortReason, byteCtr), rxb, s))"
  by pat_completeness auto
termination
  by (relation "measure (\<lambda>(c, rxb, n, t, byteCtr, a, r, s). length rxb - byteCtr)") auto

declare rx_loop.simps [simp del]

definition rx :: "rp \<Rightarrow> 8 word \<Rightarrow> 8 word list \<Rightarrow> bool \<Rightarrow> 64 word \<Rightarrow> I2C
    \<Rightarrow> ((error + unit) \<times> 8 word list \<times> I2C) option" where
  "rx c addr rxb nostop deadline s =
     (if addr \<ge> 0x80 \<or> isReservedI2CAddr addr then Some (Inl errInvalidTgtAddr, rxb, s)
      else if length rxb = 0 then Some (Inr (), rxb, s)
      else
        let s1 = enable (Set_reg IC_TAR (ucast addr) (disable s));
            timeoutCheck = (deadline = 0)
        in
        case rx_loop c rxb nostop timeoutCheck 0 False 0 s1 of
          None \<Rightarrow> None
        | Some (Inl e, rxb1, s2) \<Rightarrow> Some (Inl e, rxb1, s2)
        | Some (Inr (abort, abortReason, byteCtr), rxb1, s2) \<Rightarrow>
            let err =
                  (if abort then
                     (if abortReason = 0
                         \<or> abortReason AND I2C0_IC_TX_ABRT_SOURCE_ABRT_7B_ADDR_NOACK c \<noteq> 0
                      then Inl errI2CGeneric
                      else Inl (makeI2CBuffError byteCtr))
                   else Inr ())
            in Some (err, rxb1, s2\<lparr>restartOnNext := nostop\<rparr>))"

subsection \<open>The public transfer: Tx\<close>

text \<open>
  \<open>Tx\<close> takes a 16-bit address and converts it with \<open>uint8(addr)\<close> for both phases.
  The result carries the read buffer \<open>r\<close> as the call leaves it.
\<close>

definition Tx :: "rp \<Rightarrow> 16 word \<Rightarrow> 8 word list \<Rightarrow> 8 word list \<Rightarrow> I2C
    \<Rightarrow> ((error + unit) \<times> 8 word list \<times> I2C) option" where
  "Tx c addr w r s =
     (case (if length w > 0 then tx c (ucast addr) w False 0 s else Some (Inr (), s)) of
        None \<Rightarrow> None
      | Some (Inl err, s1) \<Rightarrow> Some (Inl err, r, s1)
      | Some (Inr _, s1) \<Rightarrow>
          if length r > 0 then
            (case rx c (ucast addr) r False 0 s1 of
               None \<Rightarrow> None
             | Some (Inl err, r1, s2) \<Rightarrow> Some (Inl err, r1, s2)
             | Some (Inr _, r1, s2) \<Rightarrow> Some (Inr (), r1, s2))
          else Some (Inr (), r, s1))"

section \<open>Interrupt installation and GPIO interrupt dispatch (machine\_rp2040\_gpio.go)\<close>

text \<open>
  The sources hold several revisions of the interrupt code. The one modelled is the
  revision with \<open>setIRQ\<close>, \<open>irqSetExclusiveHandler\<close> with its check of the current
  table entry, and \<open>gpioirqHandler\<close>.
\<close>

definition NUMSPINLOCKS :: "32 word" where
  "NUMSPINLOCKS = 32"

definition NUMIRQ :: "32 word" where
  "NUMIRQ = 32"

definition PICO_SPINLOCK_ID_IRQ :: "32 word" where
  "PICO_SPINLOCK_ID_IRQ = 9"

definition NUMBANK0_GPIOS :: nat where
  "NUMBANK0_GPIOS = 30"

text \<open>
  An interrupt handler is a Go function value of type \<open>func()\<close>. Go compares such a
  value with \<open>nil\<close> only; the model gives each handler a name.
\<close>

datatype irqHandler = gpioirqHandler_fn | other_fn nat

datatype fatal = panic string

text \<open>
  What the interrupt code does to hardware and to functions that are not in the sources
  is logged: the calls of \<open>Pin.setInterrupt\<close> and \<open>Pin.acknowledgeInterrupt\<close> with
  their arguments, the store that frees the spin lock, and the stores to the three NVIC
  registers.
\<close>

datatype event =
    setInterrupt nat "8 word" bool
  | acknowledgeInterrupt nat "8 word"
  | spinlock_Set "32 word"
  | NVIC_ICPR_Set "32 word"
  | NVIC_ISER_Set "32 word"
  | NVIC_ICER_Set "32 word"

text \<open>
  The state of the interrupt code. \<open>CurrentCore\<close> is the core that runs the call (what
  the function of that name returns). A pin callback has the Go type \<open>func(Pin)\<close>: it
  is given the pin and acts on the rest of the program, the state \<open>user\<close>. \<open>Pin\<close> is
  \<open>uint8\<close> and \<open>PinChange\<close> is \<open>uint8\<close>; pins are modelled as \<open>nat\<close>, all values
  here being below 30. \<open>vtable\<close> is the vector table of 48 entries (\<open>None\<close> for \<open>nil\<close>),
  \<open>spinlock\<close> is what the loads of the spin-lock register will return, in order, and
  \<open>interrupts\<close> is the interrupt state that \<open>interrupt.Disable\<close> returns and
  \<open>interrupt.Restore\<close> puts back. The two \<open>intS\<close> banks are the interrupt status
  registers of the two cores.
\<close>

record 'u machine =
  CurrentCore :: nat
  interrupts :: bool
  spinlock :: "32 word list"
  vtable :: "nat \<Rightarrow> irqHandler option"
  pinCallbacks :: "nat \<Rightarrow> (nat \<Rightarrow> 'u \<Rightarrow> 'u) option"
  proc0IRQctrl_intS :: "nat \<Rightarrow> 32 word"
  proc1IRQctrl_intS :: "nat \<Rightarrow> 32 word"
  trace :: "event list"
  user :: 'u

text \<open>
  The parts of the package that the interrupt code calls and that are not in the sources
  are a parameter: the number of the shared GPIO interrupt line and the function
  \<open>getIntChange\<close> that reads a pin's pending events out of a status word.
\<close>

record extern =
  IRQ_IO_IRQ_BANK0 :: "32 word"
  getIntChange :: "nat \<Rightarrow> 32 word \<Rightarrow> 8 word"

text \<open>
  One value of the parameter, for runs on concrete inputs. The spec calls the bit layout a
  fixed external register contract; the layout taken here is the one \<open>setIRQEnabled\<close>
  of the sources uses for the enable registers, four event bits per pin and eight pins per
  register (\<open>events << 4 * (p % 8)\<close> in register \<open>p / 8\<close>), and line 13 for the GPIO
  bank.
\<close>

definition rp2040_extern :: extern where
  "rp2040_extern = \<lparr>
     IRQ_IO_IRQ_BANK0 = 13,
     getIntChange = (\<lambda>p status. ucast (drop_bit (4 * (p mod 8)) status) AND 0xF) \<rparr>"

subsection \<open>The spin lock\<close>

text \<open>\<open>spinLock.init\<close> checks the lock number; the lock is then its register.\<close>

definition spinLock_init :: "32 word \<Rightarrow> fatal + 32 word" where
  "spinLock_init lockID =
     (if lockID \<ge> NUMSPINLOCKS then Inl (panic ''spinlocknum >= 32'') else Inr lockID)"

text \<open>The wait of \<open>spinLock.lock\<close>: load the register until it reads 0.\<close>

fun spin :: "32 word list \<Rightarrow> 32 word list option" where
  "spin [] = None"
| "spin (v # vs) = (if v \<noteq> 0 then spin vs else Some vs)"

definition lock :: "'u machine \<Rightarrow> (bool \<times> 'u machine) option" where
  "lock s =
     (let is = interrupts s;
          s1 = s\<lparr>interrupts := False\<rparr>
      in map_option (\<lambda>rest. (is, s1\<lparr>spinlock := rest\<rparr>)) (spin (spinlock s1)))"

definition unlock :: "bool \<Rightarrow> 'u machine \<Rightarrow> 'u machine" where
  "unlock is s = s\<lparr>trace := trace s @ [spinlock_Set 0], interrupts := is\<rparr>"

subsection \<open>The vector table\<close>

definition getVtableHandler :: "32 word \<Rightarrow> 'u machine \<Rightarrow> irqHandler option" where
  "getVtableHandler num s = (if num \<ge> NUMIRQ then None else vtable s (unat num + 16))"

definition setVtableHandler :: "32 word \<Rightarrow> irqHandler option \<Rightarrow> 'u machine \<Rightarrow> 'u machine" where
  "setVtableHandler num handler s = s\<lparr>vtable := (vtable s)(16 + unat num := handler)\<rparr>"

text \<open>
  \<open>irqSetExclusiveHandler\<close>. A panic leaves the function at once: the lock is not
  released. The argument \<open>handler\<close> may be \<open>nil\<close>.
\<close>

definition irqSetExclusiveHandler ::
  "32 word \<Rightarrow> irqHandler option \<Rightarrow> 'u machine \<Rightarrow> ((fatal + unit) \<times> 'u machine) option" where
  "irqSetExclusiveHandler num handler s =
     (if num \<ge> NUMIRQ then Some (Inl (panic ''ErrInvalidInputPin''), s)
      else
        case spinLock_init PICO_SPINLOCK_ID_IRQ of
          Inl e \<Rightarrow> Some (Inl e, s)
        | Inr _ \<Rightarrow>
           (case lock s of
              None \<Rightarrow> None
            | Some (is, s1) \<Rightarrow>
                let current = getVtableHandler num s1 in
                if current \<noteq> None
                then Some (Inl (panic ''can't set handler due to non nil actual handler''), s1)
                else Some (Inr (), unlock is (setVtableHandler num handler s1))))"

definition irqSetMask :: "32 word \<Rightarrow> bool \<Rightarrow> 'u machine \<Rightarrow> 'u machine" where
  "irqSetMask msk enabled s =
     (if enabled then s\<lparr>trace := trace s @ [NVIC_ICPR_Set msk, NVIC_ISER_Set msk]\<rparr>
      else s\<lparr>trace := trace s @ [NVIC_ICER_Set msk]\<rparr>)"

definition irqSet :: "32 word \<Rightarrow> bool \<Rightarrow> 'u machine \<Rightarrow> 'u machine" where
  "irqSet num enabled s =
     (if num \<ge> NUMIRQ then s else irqSetMask (push_bit (unat num) 1) enabled s)"

text \<open>
  \<open>Pin.setIRQ\<close>. The store into the array \<open>pinCallbacks\<close> of length 2 panics when the
  index is out of range.
\<close>

definition setIRQ ::
  "extern \<Rightarrow> nat \<Rightarrow> 8 word \<Rightarrow> (nat \<Rightarrow> 'u \<Rightarrow> 'u) option \<Rightarrow> 'u machine
    \<Rightarrow> ((fatal + unit) \<times> 'u machine) option" where
  "setIRQ x p change callback s =
     (let s1 = s\<lparr>trace := trace s @ [setInterrupt p change True]\<rparr> in
      if CurrentCore s1 \<ge> 2 then Some (Inl (panic ''index out of range''), s1)
      else
        let s2 = s1\<lparr>pinCallbacks := (pinCallbacks s1)(CurrentCore s1 := callback)\<rparr> in
        case irqSetExclusiveHandler (IRQ_IO_IRQ_BANK0 x) (Some gpioirqHandler_fn) s2 of
          None \<Rightarrow> None
        | Some (Inl e, s3) \<Rightarrow> Some (Inl e, s3)
        | Some (Inr _, s3) \<Rightarrow> Some (Inr (), irqSet (IRQ_IO_IRQ_BANK0 x) True s3))"

subsection \<open>The dispatcher\<close>

text \<open>
  The \<open>switch\<close> of \<open>gpioirqHandler\<close> selects the status bank of the executing core;
  with any other core number \<open>base\<close> stays \<open>nil\<close>.
\<close>

definition base_intS :: "nat \<Rightarrow> 'u machine \<Rightarrow> (nat \<Rightarrow> 32 word) option" where
  "base_intS core s =
     (if core = 0 then Some (proc0IRQctrl_intS s)
      else if core = 1 then Some (proc1IRQctrl_intS s)
      else None)"

text \<open>
  The \<open>for\<close> loop of \<open>gpioirqHandler\<close> from pin \<open>gpio\<close> on. The callback is called
  with the pin as its only argument.
\<close>

function gpio_scan ::
  "extern \<Rightarrow> nat \<Rightarrow> (nat \<Rightarrow> 32 word) \<Rightarrow> nat \<Rightarrow> 'u machine \<Rightarrow> (fatal + unit) \<times> 'u machine" where
  "gpio_scan x core intS gpio s =
     (if gpio < NUMBANK0_GPIOS then
        let statreg = intS (drop_bit 3 gpio);
            change = getIntChange x gpio statreg
        in
        if change \<noteq> 0 then
          let s1 = s\<lparr>trace := trace s @ [acknowledgeInterrupt gpio change]\<rparr> in
          case pinCallbacks s1 core of
            Some callback \<Rightarrow> (Inr (), s1\<lparr>user := callback gpio (user s1)\<rparr>)
          | None \<Rightarrow> (Inl (panic ''unset callback in handler''), s1)
        else gpio_scan x core intS (Suc gpio) s
      else (Inl (panic ''gpio INT status not found''), s))"
  by pat_completeness auto
termination
  by (relation "measure (\<lambda>(x, core, intS, gpio, s). NUMBANK0_GPIOS - gpio)") auto

declare gpio_scan.simps [simp del]

definition gpioirqHandler :: "extern \<Rightarrow> 'u machine \<Rightarrow> (fatal + unit) \<times> 'u machine" where
  "gpioirqHandler x s =
     (let core = CurrentCore s in
      case base_intS core s of
        None \<Rightarrow> (Inl (panic ''nil pointer dereference''), s)
      | Some intS \<Rightarrow> gpio_scan x core intS 0 s)"

section \<open>States and helpers for the theorems\<close>

text \<open>
  A controller with nothing stored in its registers and an empty access log; \<open>open\<close> is
  its \<open>restartOnNext\<close> and \<open>fd\<close> the feed of register values.
\<close>

definition idle :: "bool \<Rightarrow> 32 word list \<Rightarrow> I2C" where
  "idle open fd = \<lparr>Bus = I2C0, restartOnNext = open, regs = (\<lambda>_. 0), accesses = [], feed = fd\<rparr>"

text \<open>The store of the command word in round \<open>byteCtr\<close> of the loop of \<open>rx\<close>.\<close>

definition rx_cmd :: "rp \<Rightarrow> 8 word list \<Rightarrow> bool \<Rightarrow> nat \<Rightarrow> I2C \<Rightarrow> I2C" where
  "rx_cmd c rxb nostop byteCtr s1 =
     Set_reg IC_DATA_CMD
       (push_bit (I2C0_IC_DATA_CMD_RESTART_Pos c) (boolToBit (byteCtr = 0 \<and> restartOnNext s1))
        OR push_bit (I2C0_IC_DATA_CMD_STOP_Pos c)
             (boolToBit (byteCtr = length rxb - 1 \<and> \<not> nostop))
        OR I2C0_IC_DATA_CMD_CMD c) s1"

text \<open>
  Whether a log of accesses touches the command/data FIFO (a store submits a byte or a
  command, a load pops a byte) after a load of the abort source has returned a non-zero
  value; \<open>seen\<close> says that such a load came before the log.
\<close>

fun FIFO_after_abort :: "bool \<Rightarrow> access list \<Rightarrow> bool" where
  "FIFO_after_abort seen [] = False"
| "FIFO_after_abort seen (Store r v # tr) =
     ((seen \<and> r = IC_DATA_CMD) \<or> FIFO_after_abort seen tr)"
| "FIFO_after_abort seen (Load r v # tr) =
     ((seen \<and> r = IC_DATA_CMD)
      \<or> FIFO_after_abort (seen \<or> (r = IC_TX_ABRT_SOURCE \<and> v \<noteq> 0)) tr)"

text \<open>The register of an access, and whether an access is a load of a non-zero abort source.\<close>

fun touches :: "access \<Rightarrow> reg" where
  "touches (Store r v) = r"
| "touches (Load r v) = r"

fun abort_load :: "access \<Rightarrow> bool" where
  "abort_load (Store r v) = False"
| "abort_load (Load r v) = (r = IC_TX_ABRT_SOURCE \<and> v \<noteq> 0)"

text \<open>
  A machine after start-up on core 0: empty vector table, no callbacks, nothing pending, and
  \<open>fd\<close> as the values the spin-lock register will return. \<open>pending w0 w1\<close> is that machine
  with the status words \<open>w0\<close> and \<open>w1\<close> in the first two status registers of core 0 and,
  on both cores, a callback that appends the pin it is given to the user state.
\<close>

definition boot :: "32 word list \<Rightarrow> nat list machine" where
  "boot fd = \<lparr>CurrentCore = 0, interrupts = True, spinlock = fd, vtable = (\<lambda>_. None),
     pinCallbacks = (\<lambda>_. None), proc0IRQctrl_intS = (\<lambda>_. 0), proc1IRQctrl_intS = (\<lambda>_. 0),
     trace = [], user = []\<rparr>"

definition pending :: "32 word \<Rightarrow> 32 word \<Rightarrow> nat list machine" where
  "pending w0 w1 = (boot [])\<lparr>pinCallbacks := (\<lambda>_. Some (\<lambda>p u. u @ [p])),
     proc0IRQctrl_intS := (\<lambda>_. 0)(0 := w0, 1 := w1)\<rparr>"

section \<open>Facts about the loops of the I2C driver\<close>

lemmas baud_defs = lcnt_of_def hcnt_of_def period_of_def sdaTxHoldCnt_of_def freqin_def MHz_def

lemmas run_defs =
  tx_def tx_loop.simps tx_round_def tx_wait.simps
  rx_def rx_loop.simps rx_wait_write.simps rx_wait_read.simps writeAvailable_def readAvailable_def
  Get_reg_def Set_reg_def enable_def disable_def idle_def rp2040_def boolToBit_def
  isReservedI2CAddr_def makeI2CBuffError_def Let_def

subsection \<open>The write loop\<close>

lemma tx_wait_timeout:
  "tx_wait flag timeoutCheck nostop s = Some (True, s') \<Longrightarrow> restartOnNext s' = nostop \<and> timeoutCheck"
proof (induction flag timeoutCheck nostop s rule: tx_wait.induct)
  case (1 flag timeoutCheck nostop s)
  from "1.prems" obtain v s1 where g: "Get_reg IC_RAW_INTR_STAT s = Some (v, s1)"
    by (subst (asm) tx_wait.simps) (auto split: option.splits)
  show ?case
  proof (cases "v AND flag \<noteq> 0 \<and> \<not> timeoutCheck")
    case True
    with "1.prems" g have "tx_wait flag timeoutCheck nostop s1 = Some (True, s')"
      by (subst (asm) tx_wait.simps) simp
    with "1.IH" [OF g refl] True show ?thesis by simp
  next
    case False
    with "1.prems" g show ?thesis
      by (subst (asm) tx_wait.simps) (auto split: if_splits)
  qed
qed

lemma tx_round_Inl:
  "tx_round c txb nostop timeoutCheck byteCtr abort s = Some (Inl e, s')
    \<Longrightarrow> e = errI2CTimeout \<and> restartOnNext s' = nostop \<and> timeoutCheck"
  unfolding tx_round_def Let_def
  by (auto split: option.splits if_splits bool.splits dest!: tx_wait_timeout)

lemma tx_loop_done:
  "\<not> byteCtr < length txb \<Longrightarrow>
   tx_loop c txb nostop timeoutCheck byteCtr abort abortReason s
     = Some (Inr (abort, abortReason, byteCtr), s)"
  by (subst tx_loop.simps) simp

lemma tx_loop_None:
  "byteCtr < length txb \<Longrightarrow> tx_round c txb nostop timeoutCheck byteCtr abort s = None \<Longrightarrow>
   tx_loop c txb nostop timeoutCheck byteCtr abort abortReason s = None"
  by (subst tx_loop.simps) simp

lemma tx_loop_return:
  "byteCtr < length txb \<Longrightarrow>
   tx_round c txb nostop timeoutCheck byteCtr abort s = Some (Inl e, s1) \<Longrightarrow>
   tx_loop c txb nostop timeoutCheck byteCtr abort abortReason s = Some (Inl e, s1)"
  by (subst tx_loop.simps) simp

lemma tx_loop_next:
  "byteCtr < length txb \<Longrightarrow>
   tx_round c txb nostop timeoutCheck byteCtr abort s = Some (Inr (abort1, abortReason1), s1) \<Longrightarrow>
   tx_loop c txb nostop timeoutCheck byteCtr abort abortReason s
     = tx_loop c txb nostop timeoutCheck (Suc byteCtr) abort1 abortReason1 s1"
  by (subst tx_loop.simps) simp

lemma tx_loop_cases:
  assumes "tx_loop c txb nostop timeoutCheck byteCtr abort abortReason s = Some (res, s')"
  obtains
    (finished) "\<not> byteCtr < length txb" "res = Inr (abort, abortReason, byteCtr)" "s' = s"
  | (returned) e where "byteCtr < length txb"
      "tx_round c txb nostop timeoutCheck byteCtr abort s = Some (Inl e, s')" "res = Inl e"
  | (continued) abort1 abortReason1 s1 where "byteCtr < length txb"
      "tx_round c txb nostop timeoutCheck byteCtr abort s = Some (Inr (abort1, abortReason1), s1)"
      "tx_loop c txb nostop timeoutCheck (Suc byteCtr) abort1 abortReason1 s1 = Some (res, s')"
proof (cases "byteCtr < length txb")
  case False
  with assms finished show ?thesis by (simp add: tx_loop_done)
next
  case lt: True
  show ?thesis
  proof (cases "tx_round c txb nostop timeoutCheck byteCtr abort s")
    case None
    with assms lt show ?thesis by (simp add: tx_loop_None)
  next
    case (Some p)
    obtain r s1 where p: "p = (r, s1)" by (cases p)
    show ?thesis
    proof (cases r)
      case (Inl e)
      with assms lt Some p returned show ?thesis by (simp add: tx_loop_return)
    next
      case (Inr q)
      obtain a1 r1 where "q = (a1, r1)" by (cases q)
      with assms lt Some p Inr continued show ?thesis by (simp add: tx_loop_next)
    qed
  qed
qed

lemma tx_loop_Inl:
  "tx_loop c txb nostop timeoutCheck byteCtr abort abortReason s = Some (Inl e, s')
    \<Longrightarrow> e = errI2CTimeout \<and> restartOnNext s' = nostop \<and> timeoutCheck"
proof (induction c txb nostop timeoutCheck byteCtr abort abortReason s rule: tx_loop.induct)
  case (1 c tx nostop timeoutCheck byteCtr abort abortReason s)
  from "1.prems" show ?case
  proof (cases rule: tx_loop_cases)
    case finished
    then show ?thesis by simp
  next
    case (returned e1)
    then show ?thesis by (auto dest!: tx_round_Inl)
  next
    case (continued abort1 abortReason1 s1)
    with "1.IH" [OF continued(1,2) refl refl refl] show ?thesis by simp
  qed
qed

lemma tx_loop_Inr:
  "tx_loop c txb nostop timeoutCheck byteCtr abort abortReason s = Some (Inr (a, r, k), s')
    \<Longrightarrow> byteCtr \<le> length txb \<Longrightarrow> k = length txb"
proof (induction c txb nostop timeoutCheck byteCtr abort abortReason s rule: tx_loop.induct)
  case (1 c tx nostop timeoutCheck byteCtr abort abortReason s)
  from "1.prems"(1) show ?case
  proof (cases rule: tx_loop_cases)
    case finished
    with "1.prems"(2) show ?thesis by simp
  next
    case (returned e1)
    then show ?thesis by simp
  next
    case (continued abort1 abortReason1 s1)
    with "1.IH" [OF continued(1,2) refl refl refl] show ?thesis by simp
  qed
qed

subsection \<open>The read loop\<close>

lemma rx_wait_read_Inl:
  "rx_wait_read timeoutCheck nostop abort abortReason s = Some (Inl e, s')
    \<Longrightarrow> e = errI2CTimeout \<and> restartOnNext s' = nostop \<and> timeoutCheck"
proof (induction timeoutCheck nostop abort abortReason s rule: rx_wait_read.induct)
  case (1 timeoutCheck nostop abort abortReason s)
  from "1.prems" obtain n s1 where g: "readAvailable s = Some (n, s1)"
    by (subst (asm) rx_wait_read.simps) (auto split: option.splits)
  show ?case
  proof (cases "n = 0 \<and> \<not> abort")
    case False
    with "1.prems" g show ?thesis
      by (subst (asm) rx_wait_read.simps) (auto split: if_splits)
  next
    case True
    with "1.prems" g obtain r s2 where a: "Get_reg IC_TX_ABRT_SOURCE s1 = Some (r, s2)"
      by (subst (asm) rx_wait_read.simps) (auto split: option.splits)
    show ?thesis
    proof (cases timeoutCheck)
      case True
      with "1.prems" g a \<open>n = 0 \<and> \<not> abort\<close> show ?thesis
        by (subst (asm) rx_wait_read.simps) (auto simp: Let_def)
    next
      case False
      with "1.prems" g a \<open>n = 0 \<and> \<not> abort\<close>
      have "rx_wait_read timeoutCheck nostop (if r \<noteq> 0 then True else abort) r s2
              = Some (Inl e, s')"
        by (subst (asm) rx_wait_read.simps) (simp add: Let_def)
      with "1.IH" [OF g refl \<open>n = 0 \<and> \<not> abort\<close> a refl refl False] show ?thesis by simp
    qed
  qed
qed

lemma rx_loop_unfold:
  "rx_loop c rxb nostop timeoutCheck byteCtr abort abortReason s =
     (if byteCtr < length rxb then
        case rx_wait_write c s of
          None \<Rightarrow> None
        | Some s1 \<Rightarrow>
           (case rx_wait_read timeoutCheck nostop abort abortReason
                   (rx_cmd c rxb nostop byteCtr s1) of
              None \<Rightarrow> None
            | Some (Inl e, s3) \<Rightarrow> Some (Inl e, rxb, s3)
            | Some (Inr (abort1, abortReason1), s3) \<Rightarrow>
                if abort1 then Some (Inr (abort1, abortReason1, byteCtr), rxb, s3)
                else
                  (case Get_reg IC_DATA_CMD s3 of
                     None \<Rightarrow> None
                   | Some (v, s4) \<Rightarrow>
                       rx_loop c (rxb[byteCtr := ucast v]) nostop timeoutCheck (Suc byteCtr)
                         abort1 abortReason1 s4))
      else Some (Inr (abort, abortReason, byteCtr), rxb, s))"
  by (subst rx_loop.simps) (auto simp: Let_def rx_cmd_def split: option.splits)

lemma rx_loop_cases:
  assumes "rx_loop c rxb nostop timeoutCheck byteCtr abort abortReason s = Some (res, b, s')"
  obtains
    (finished) "\<not> byteCtr < length rxb" "res = Inr (abort, abortReason, byteCtr)"
      "b = rxb" "s' = s"
  | (returned) e s1 where "byteCtr < length rxb" "rx_wait_write c s = Some s1"
      "rx_wait_read timeoutCheck nostop abort abortReason (rx_cmd c rxb nostop byteCtr s1)
         = Some (Inl e, s')"
      "res = Inl e" "b = rxb"
  | (broke) abortReason1 s1 where "byteCtr < length rxb" "rx_wait_write c s = Some s1"
      "rx_wait_read timeoutCheck nostop abort abortReason (rx_cmd c rxb nostop byteCtr s1)
         = Some (Inr (True, abortReason1), s')"
      "res = Inr (True, abortReason1, byteCtr)" "b = rxb"
  | (continued) abortReason1 s1 s3 v s4 where "byteCtr < length rxb"
      "rx_wait_write c s = Some s1"
      "rx_wait_read timeoutCheck nostop abort abortReason (rx_cmd c rxb nostop byteCtr s1)
         = Some (Inr (False, abortReason1), s3)"
      "Get_reg IC_DATA_CMD s3 = Some (v, s4)"
      "rx_loop c (rxb[byteCtr := ucast v]) nostop timeoutCheck (Suc byteCtr) False
         abortReason1 s4 = Some (res, b, s')"
proof (cases "byteCtr < length rxb")
  case False
  with assms have "res = Inr (abort, abortReason, byteCtr) \<and> b = rxb \<and> s' = s"
    by (subst (asm) rx_loop_unfold) auto
  with False finished show ?thesis by blast
next
  case lt: True
  from assms lt obtain s1 where w: "rx_wait_write c s = Some s1"
    by (subst (asm) rx_loop_unfold) (simp split: option.splits)
  from assms lt w obtain r s3 where rd:
    "rx_wait_read timeoutCheck nostop abort abortReason (rx_cmd c rxb nostop byteCtr s1)
       = Some (r, s3)"
    by (subst (asm) rx_loop_unfold) (auto split: option.splits)
  show ?thesis
  proof (cases r)
    case (Inl e)
    with assms lt w rd have "res = Inl e \<and> b = rxb \<and> s3 = s'"
      by (subst (asm) rx_loop_unfold) auto
    with lt w rd Inl returned show ?thesis by auto
  next
    case (Inr q)
    obtain a1 r1 where q: "q = (a1, r1)" by (cases q)
    show ?thesis
    proof (cases a1)
      case True
      with assms lt w rd Inr q have "res = Inr (True, r1, byteCtr) \<and> b = rxb \<and> s3 = s'"
        by (subst (asm) rx_loop_unfold) auto
      with lt w rd Inr q True broke show ?thesis by auto
    next
      case False
      with assms lt w rd Inr q obtain v s4 where g: "Get_reg IC_DATA_CMD s3 = Some (v, s4)"
        by (subst (asm) rx_loop_unfold) (auto split: option.splits)
      with assms lt w rd Inr q False
      have "rx_loop c (rxb[byteCtr := ucast v]) nostop timeoutCheck (Suc byteCtr) False r1 s4
              = Some (res, b, s')"
        by (subst (asm) rx_loop_unfold) simp
      with lt w rd Inr q False g continued show ?thesis by auto
    qed
  qed
qed

lemma rx_loop_Inl:
  "rx_loop c rxb nostop timeoutCheck byteCtr abort abortReason s = Some (Inl e, b, s')
    \<Longrightarrow> e = errI2CTimeout \<and> restartOnNext s' = nostop \<and> timeoutCheck"
proof (induction c rxb nostop timeoutCheck byteCtr abort abortReason s rule: rx_loop.induct)
  case (1 c rxb nostop timeoutCheck byteCtr abort abortReason s)
  from "1.prems" show ?case
  proof (cases rule: rx_loop_cases)
    case finished
    then show ?thesis by simp
  next
    case (returned e1 s1)
    then show ?thesis by (auto dest!: rx_wait_read_Inl)
  next
    case (broke abortReason1 s1)
    then show ?thesis by simp
  next
    case (continued abortReason1 s1 s3 v s4)
    from "1.IH" [OF continued(1) refl refl continued(2) refl
            continued(3) [unfolded rx_cmd_def] refl refl refl _ continued(4) refl] continued(5)
    show ?thesis by simp
  qed
qed

subsection \<open>Address check\<close>

lemma ucast_low_byte: "(ucast ((a::16 word) mod 256) :: 8 word) = ucast a"
proof -
  have "a mod 256 = take_bit 8 a" by (simp add: take_bit_eq_mod)
  then show ?thesis by (simp add: bit_eq_iff bit_simps)
qed

lemma tx_not_errInvalidTgtAddr:
  "\<not> (addr \<ge> 0x80 \<or> isReservedI2CAddr addr) \<Longrightarrow>
   tx c addr txb nostop timeout s \<noteq> Some (Inl errInvalidTgtAddr, s')"
  by (auto simp: tx_def Let_def makeI2CBuffError_def split: option.splits sum.splits
           dest!: tx_loop_Inl)

lemma rx_not_errInvalidTgtAddr:
  "\<not> (addr \<ge> 0x80 \<or> isReservedI2CAddr addr) \<Longrightarrow>
   rx c addr rxb nostop deadline s \<noteq> Some (Inl errInvalidTgtAddr, b, s')"
  by (auto simp: rx_def Let_def makeI2CBuffError_def split: option.splits sum.splits
           dest!: rx_loop_Inl)

subsection \<open>The transfers return when the controller answers\<close>

text \<open>
  The results below are \<open>Some\<close> whenever the feed lasts: a write returns success when
  every load reads 0 (no flag set, no abort) for four loads per byte, and a read returns
  success when every load reads one value other than 0 and other than the constant that
  \<open>writeAvailable\<close> subtracts from, for three loads per byte.
\<close>

lemma tx_wait_zero:
  "feed s \<noteq> [] \<Longrightarrow> hd (feed s) = 0 \<Longrightarrow>
   tx_wait flag timeoutCheck nostop s
     = Some (False, s\<lparr>accesses := accesses s @ [Load IC_RAW_INTR_STAT 0], feed := tl (feed s)\<rparr>)"
  by (subst tx_wait.simps) (auto simp: Get_reg_def split: list.splits)

lemma tx_round_zero_feed:
  assumes "feed s = replicate n 0" and "4 \<le> n"
  shows "\<exists>s' m. tx_round c txb nostop timeoutCheck byteCtr False s = Some (Inr (False, 0), s')
           \<and> feed s' = replicate m 0 \<and> n \<le> m + 4"
proof -
  from assms(2) obtain k where n: "n = 4 + k" using le_Suc_ex by blast
  with assms(1) have f: "feed s = 0 # 0 # 0 # 0 # replicate k 0"
    by (simp add: numeral_eq_Suc)
  show ?thesis
  proof (cases "byteCtr = length txb - 1 \<and> \<not> nostop")
    case True
    with f obtain s' where "tx_round c txb nostop timeoutCheck byteCtr False s
        = Some (Inr (False, 0), s')" "feed s' = replicate k 0"
      by (simp add: tx_round_def Let_def Set_reg_def Get_reg_def tx_wait_zero)
    with n show ?thesis by (intro exI [of _ s'] exI [of _ k]) simp
  next
    case False
    with f obtain s' where "tx_round c txb nostop timeoutCheck byteCtr False s
        = Some (Inr (False, 0), s')" "feed s' = replicate (Suc (Suc k)) 0"
      by (auto simp: tx_round_def Let_def Set_reg_def Get_reg_def tx_wait_zero)
    with n show ?thesis by (intro exI [of _ s'] exI [of _ "Suc (Suc k)"]) simp
  qed
qed

lemma tx_loop_zero_feed:
  "feed s = replicate n 0 \<Longrightarrow> 4 * (length txb - byteCtr) \<le> n \<Longrightarrow> byteCtr \<le> length txb \<Longrightarrow>
   \<exists>r s'. tx_loop c txb nostop timeoutCheck byteCtr False abortReason s
            = Some (Inr (False, r, length txb), s')"
proof (induction "length txb - byteCtr" arbitrary: byteCtr abortReason s n)
  case 0
  then show ?case by (simp add: tx_loop_done)
next
  case (Suc d)
  then have lt: "byteCtr < length txb" and n4: "4 \<le> n" by auto
  from tx_round_zero_feed [OF Suc.prems(1) n4, of c txb nostop timeoutCheck byteCtr]
  obtain s1 m where
    rnd: "tx_round c txb nostop timeoutCheck byteCtr False s = Some (Inr (False, 0), s1)"
    and fd: "feed s1 = replicate m 0" and m: "n \<le> m + 4" by blast
  from Suc.hyps(2) have d: "d = length txb - Suc byteCtr" by simp
  from Suc.prems(2) m lt have "4 * (length txb - Suc byteCtr) \<le> m" by simp
  with lt have "\<exists>r s'. tx_loop c txb nostop timeoutCheck (Suc byteCtr) False 0 s1
      = Some (Inr (False, r, length txb), s')"
    by (intro Suc.hyps(1) [OF d fd]) simp_all
  then obtain r s' where "tx_loop c txb nostop timeoutCheck (Suc byteCtr) False 0 s1
      = Some (Inr (False, r, length txb), s')" by blast
  with tx_loop_next [OF lt rnd] show ?case by simp
qed

lemma tx_returns:
  assumes "\<not> (a \<ge> 0x80 \<or> isReservedI2CAddr a)"
    and "feed s = replicate n 0" and "4 * length txb \<le> n"
  shows "\<exists>s'. tx c a txb nostop timeout s = Some (Inr (), s')"
proof (cases "txb = []")
  case True
  with assms(1) show ?thesis by (simp add: tx_def)
next
  case False
  let ?s1 = "enable (Set_reg IC_TAR (ucast a) (disable s))"
  from assms(2) have "feed ?s1 = replicate n 0"
    by (simp add: enable_def disable_def Set_reg_def)
  from tx_loop_zero_feed [OF this, of txb 0 c nostop "timeout \<noteq> 0" 0] assms(3)
  obtain r s2 where "tx_loop c txb nostop (timeout \<noteq> 0) 0 False 0 ?s1
      = Some (Inr (False, r, length txb), s2)" by auto
  with assms(1) False show ?thesis by (simp add: tx_def Let_def)
qed

lemma rx_wait_write_ready:
  "feed s \<noteq> [] \<Longrightarrow> hd (feed s) \<noteq> I2C0_IC_COMP_PARAM_1_TX_BUFFER_DEPTH_Pos c \<Longrightarrow>
   rx_wait_write c s
     = Some (s\<lparr>accesses := accesses s @ [Load IC_RXFLR (hd (feed s))], feed := tl (feed s)\<rparr>)"
  by (subst rx_wait_write.simps)
     (auto simp: writeAvailable_def Get_reg_def split: list.splits)

lemma rx_wait_read_ready:
  "feed s \<noteq> [] \<Longrightarrow> hd (feed s) \<noteq> 0 \<Longrightarrow>
   rx_wait_read timeoutCheck nostop abort abortReason s
     = Some (Inr (abort, abortReason),
         s\<lparr>accesses := accesses s @ [Load IC_RXFLR (hd (feed s))], feed := tl (feed s)\<rparr>)"
  by (subst rx_wait_read.simps)
     (auto simp: readAvailable_def Get_reg_def split: list.splits)

lemma rx_loop_ready_feed:
  "feed s = replicate n v \<Longrightarrow> v \<noteq> 0 \<Longrightarrow> v \<noteq> I2C0_IC_COMP_PARAM_1_TX_BUFFER_DEPTH_Pos c \<Longrightarrow>
   3 * (length rxb - byteCtr) \<le> n \<Longrightarrow>
   \<exists>r k b s'. rx_loop c rxb nostop timeoutCheck byteCtr False abortReason s
            = Some (Inr (False, r, k), b, s')"
proof (induction "length rxb - byteCtr" arbitrary: byteCtr abortReason s n rxb)
  case 0
  then show ?case by (subst rx_loop_unfold) simp
next
  case (Suc d)
  then have lt: "byteCtr < length rxb" and "3 \<le> n" by auto
  then obtain k where n: "n = 3 + k" using le_Suc_ex by blast
  with Suc.prems(1) have f: "feed s = v # v # v # replicate k v"
    by (simp add: numeral_eq_Suc)
  let ?s4 = "(rx_cmd c rxb nostop byteCtr
                (s\<lparr>accesses := accesses s @ [Load IC_RXFLR v], feed := v # v # replicate k v\<rparr>))
             \<lparr>accesses := accesses (rx_cmd c rxb nostop byteCtr
                (s\<lparr>accesses := accesses s @ [Load IC_RXFLR v], feed := v # v # replicate k v\<rparr>))
                  @ [Load IC_RXFLR v, Load IC_DATA_CMD v],
               feed := replicate k v\<rparr>"
  from f Suc.prems(2,3) lt
  have step: "rx_loop c rxb nostop timeoutCheck byteCtr False abortReason s
      = rx_loop c (rxb[byteCtr := ucast v]) nostop timeoutCheck (Suc byteCtr) False abortReason ?s4"
    by (subst rx_loop_unfold)
       (simp add: rx_wait_write_ready rx_wait_read_ready rx_cmd_def Set_reg_def Get_reg_def)
  have fd: "feed ?s4 = replicate k v" by simp
  from Suc.hyps(2) have d: "d = length (rxb[byteCtr := ucast v]) - Suc byteCtr" by simp
  from Suc.prems(4) n lt have "3 * (length (rxb[byteCtr := ucast v]) - Suc byteCtr) \<le> k"
    by simp
  from Suc.hyps(1) [OF d fd Suc.prems(2,3) this] step show ?case by simp
qed

lemma rx_returns:
  assumes "\<not> (a \<ge> 0x80 \<or> isReservedI2CAddr a)"
    and "feed s = replicate n v" and "v \<noteq> 0"
    and "v \<noteq> I2C0_IC_COMP_PARAM_1_TX_BUFFER_DEPTH_Pos c"
    and "3 * length rxb \<le> n"
  shows "\<exists>b s'. rx c a rxb nostop deadline s = Some (Inr (), b, s')"
proof (cases "rxb = []")
  case True
  with assms(1) show ?thesis by (simp add: rx_def)
next
  case False
  let ?s1 = "enable (Set_reg IC_TAR (ucast a) (disable s))"
  from assms(2) have "feed ?s1 = replicate n v"
    by (simp add: enable_def disable_def Set_reg_def)
  from rx_loop_ready_feed [OF this assms(3,4), of rxb 0 nostop "deadline = 0" 0] assms(5)
  obtain r k b s2 where "rx_loop c rxb nostop (deadline = 0) 0 False 0 ?s1
      = Some (Inr (False, r, k), b, s2)" by auto
  with assms(1) False show ?thesis by (simp add: rx_def Let_def)
qed

section \<open>SetBaudrate\<close>

text \<open>What \<open>SetBaudrate\<close> does, for every rate other than 0 and all device constants.\<close>

lemma SetBaudrate_succeeds_iff:
  "br \<noteq> 0 \<Longrightarrow>
   fst (SetBaudrate c br s) = Inr () \<longleftrightarrow>
     8 \<le> hcnt_of br \<and> hcnt_of br \<le> I2C0_IC_FS_SCL_HCNT_IC_FS_SCL_HCNT_Msk c
     \<and> 8 \<le> lcnt_of br \<and> lcnt_of br \<le> I2C0_IC_FS_SCL_LCNT_IC_FS_SCL_LCNT_Msk c
     \<and> lcnt_of br - 2 < sdaTxHoldCnt_of br"
  by (auto simp: SetBaudrate_def Let_def)

lemma SetBaudrate_success_enabled:
  "SetBaudrate c br s = (Inr (), s') \<Longrightarrow> regs s' IC_ENABLE = 1"
  by (auto simp: SetBaudrate_def Let_def enable_def Set_reg_def split: if_splits)

lemma SetBaudrate_failure_untouched:
  "SetBaudrate c br s = (Inl e, s') \<Longrightarrow> s' = s"
  by (auto simp: SetBaudrate_def Let_def split: if_splits)

text \<open>
  The counts as natural numbers: nothing wraps around for a rate other than 0. Below 1 MHz
  the period is at least 125 cycles and the low count at least 75, so the hold count of 38
  is never above \<open>low - 2\<close>: every rate below 1 MHz is rejected.
\<close>

lemma period_of_nat:
  assumes "br \<noteq> 0"
  shows "unat (period_of br) = (125000000 + unat br div 2) div unat br"
proof -
  have b: "unat br < 2 ^ 32" using unsigned_less [of br] by simp
  have h: "unat (br div 2) = unat br div 2" by (simp add: unat_div)
  have "unat (125000000 + br div 2) = 125000000 + unat br div 2"
    using b h by (simp add: unat_word_ariths)
  then show ?thesis
    by (simp add: period_of_def freqin_def MHz_def unat_div)
qed

lemma period_of_le:
  assumes "br \<noteq> 0"
  shows "unat (period_of br) \<le> 125000001"
proof -
  from assms have pos: "0 < unat br" by (simp add: unat_gt_0)
  have "(125000000 + unat br div 2) div unat br \<le> (125000000 + unat br) div unat br"
    by (rule div_le_mono) simp
  also from pos have "\<dots> = 125000000 div unat br + 1"
    using div_add_self2 [of "unat br" 125000000] by simp
  also have "\<dots> \<le> 125000000 + 1" by (simp add: div_le_dividend)
  finally show ?thesis using assms by (simp add: period_of_nat)
qed

lemma lcnt_of_nat:
  assumes "br \<noteq> 0"
  shows "unat (lcnt_of br) = unat (period_of br) * 3 div 5"
proof -
  from period_of_le [OF assms] have "unat (period_of br) * unat (3 :: 32 word) < 2 ^ 32"
    by simp
  then have "unat (period_of br * 3) = unat (period_of br) * 3"
    by (simp add: unat_mult_lem [THEN iffD1])
  then show ?thesis by (simp add: lcnt_of_def unat_div)
qed

lemma lcnt_of_below_1MHz:
  assumes "br \<noteq> 0" and "br < 1000000"
  shows "75 \<le> unat (lcnt_of br)"
proof -
  from assms(1) have pos: "0 < unat br" by (simp add: unat_gt_0)
  from assms(2) have "unat br < 1000000" by (simp add: word_less_nat_alt)
  then have "125000000 div 1000000 \<le> 125000000 div unat br"
    using pos by (intro div_le_mono2) simp_all
  also have "\<dots> \<le> (125000000 + unat br div 2) div unat br"
    by (rule div_le_mono) simp
  finally have "125 \<le> unat (period_of br)" using assms(1) by (simp add: period_of_nat)
  then have "75 \<le> unat (period_of br) * 3 div 5" by simp
  then show ?thesis using assms(1) by (simp add: lcnt_of_nat)
qed

lemma SetBaudrate_rejects_below_1MHz:
  assumes "br \<noteq> 0" and "br < 1000000"
  shows "SetBaudrate c br s = (Inl errInvalidI2CBaudrate, s)"
proof -
  from lcnt_of_below_1MHz [OF assms] have l: "75 \<le> unat (lcnt_of br)" .
  then have "unat (2 :: 32 word) \<le> unat (lcnt_of br)" by simp
  then have "unat (lcnt_of br - 2) = unat (lcnt_of br) - 2"
    by (simp add: unat_sub word_le_nat_alt)
  with l have "unat (38 :: 32 word) \<le> unat (lcnt_of br - 2)" by simp
  then have "(38 :: 32 word) \<le> lcnt_of br - 2" by (simp add: word_le_nat_alt)
  moreover from assms(2) have "sdaTxHoldCnt_of br = 38"
    by (simp add: sdaTxHoldCnt_of_def freqin_def MHz_def not_le [symmetric])
  ultimately show ?thesis using assms(1) by (simp add: SetBaudrate_def Let_def)
qed

text \<open>
  \<open>Configure\<close> ends with \<open>SetBaudrate\<close>: at 400 kHz it returns the same error,
  with the controller disabled.
\<close>

lemma Configure_rejects_400kHz:
  assumes "Configure c 400000 s = Some (res, s')"
  shows "res = Inl errInvalidI2CBaudrate \<and> regs s' IC_ENABLE = 0 \<and> \<not> restartOnNext s'"
proof -
  from assms obtain s1 where r: "reset c s = Some s1"
    by (auto simp: Configure_def init_def split: option.splits)
  have "SetBaudrate c 400000 t = (Inl errInvalidI2CBaudrate, t)" for t
    by (rule SetBaudrate_rejects_below_1MHz) simp_all
  with assms r show ?thesis
    by (auto simp: Configure_def init_def Let_def disable_def Set_reg_def)
qed

lemma Configure_400kHz_returns:
  "map_option fst (Configure rp2040 400000 (idle True [0, 8])) = Some (Inl errInvalidI2CBaudrate)"
  by (simp add: Configure_def init_def reset_def deinit_def reset_wait.simps SetBits_def
        ClearBits_def Get_reg_def Set_reg_def disable_def idle_def Let_def rp2040_def
        SetBaudrate_rejects_below_1MHz)

text \<open>
  Claim C1: when the low and high counts derived from the rate lie in \<open>[8, register max]\<close>
  and the hold count does not exceed \<open>low - 2\<close>, \<open>SetBaudrate\<close> succeeds and leaves
  the controller enabled. The code does the opposite at the hold check. At 400 kHz the low
  count is 187, the high count is 126 and the hold count is 38, which does not exceed
  \<open>low - 2 = 185\<close>; with 16-bit count fields all conditions of the claim hold. Yet
  \<open>SetBaudrate\<close> returns \<open>errInvalidI2CBaudrate\<close> without touching a register, for
  all values of the device constants.
\<close>

theorem SetBaudrate_rejects_400kHz:
  "lcnt_of 400000 = 187 \<and> hcnt_of 400000 = 126 \<and> sdaTxHoldCnt_of 400000 = 38
   \<and> sdaTxHoldCnt_of 400000 \<le> lcnt_of 400000 - 2
   \<and> SetBaudrate c 400000 s = (Inl errInvalidI2CBaudrate, s)
   \<and> fst (SetBaudrate rp2040 400000 (idle False [])) = Inl errInvalidI2CBaudrate"
proof -
  have "SetBaudrate c 400000 s = (Inl errInvalidI2CBaudrate, s)"
    by (rule SetBaudrate_rejects_below_1MHz) simp_all
  moreover have "fst (SetBaudrate rp2040 400000 (idle False [])) = Inl errInvalidI2CBaudrate"
    by (simp add: SetBaudrate_def baud_defs rp2040_def)
  ultimately show ?thesis by (simp add: baud_defs)
qed

section \<open>Early returns of tx and rx\<close>

text \<open>
  Claim C8: for every target address \<open>a\<close> with \<open>a \<ge> 0x80\<close>, \<open>(a & 0x78) = 0\<close> or
  \<open>(a & 0x78) = 0x78\<close>, \<open>tx\<close> and \<open>rx\<close> return \<open>errInvalidTgtAddr\<close> at once: the
  state is the one the call started from, so no register was loaded or stored (the access
  log and the feed are unchanged) and \<open>restartOnNext\<close> is unchanged.
\<close>

theorem invalid_address_rejected:
  assumes "a \<ge> 0x80 \<or> a AND 0x78 = 0 \<or> a AND 0x78 = 0x78"
  shows "tx c a txb nostop timeout s = Some (Inl errInvalidTgtAddr, s)
       \<and> rx c a rxb nostop timeout s = Some (Inl errInvalidTgtAddr, rxb, s)"
  using assms by (auto simp: tx_def rx_def isReservedI2CAddr_def)

theorem invalid_address_rejected_witness:
  "tx rp2040 0x87 [1, 2] True 5 (idle True [0, 0]) = Some (Inl errInvalidTgtAddr, idle True [0, 0])
   \<and> rx rp2040 0x87 [0, 0] True 5 (idle True [0, 0])
       = Some (Inl errInvalidTgtAddr, [0, 0], idle True [0, 0])"
  using invalid_address_rejected [of "0x87" rp2040 "[1, 2]" True 5 "idle True [0, 0]" "[0, 0]"]
  by simp

text \<open>
  Claim C9, as stated for every target address, fails: the address check comes before the
  length check, so an empty write to address \<open>0x00\<close> and an empty read from address
  \<open>0x7F\<close> return \<open>errInvalidTgtAddr\<close>, not success.
\<close>

theorem empty_payload_invalid_address:
  "tx rp2040 0x00 [] False 0 (idle False []) = Some (Inl errInvalidTgtAddr, idle False [])
   \<and> rx rp2040 0x7F [] False 0 (idle False []) = Some (Inl errInvalidTgtAddr, [], idle False [])"
  by (simp add: tx_def rx_def isReservedI2CAddr_def)

text \<open>
  Claim C9, amended: for every target address that passes the address check (below
  \<open>0x80\<close> and not reserved), a write of no bytes and a read into an empty buffer return
  success at once, in the state the call started from: no register activity and no change
  of \<open>restartOnNext\<close>.
\<close>

theorem empty_payload_is_noop:
  assumes "\<not> (a \<ge> 0x80 \<or> a AND 0x78 = 0 \<or> a AND 0x78 = 0x78)"
  shows "tx c a [] nostop timeout s = Some (Inr (), s)
       \<and> rx c a [] nostop timeout s = Some (Inr (), [], s)"
  using assms by (auto simp: tx_def rx_def isReservedI2CAddr_def)

theorem empty_payload_is_noop_witness:
  "tx rp2040 0x10 [] False 0 (idle True [7]) = Some (Inr (), idle True [7])
   \<and> rx rp2040 0x10 [] False 0 (idle True [7]) = Some (Inr (), [], idle True [7])"
  using empty_payload_is_noop [of "0x10" rp2040 False 0 "idle True [7]"]
  by simp

section \<open>restartOnNext when tx and rx return\<close>

text \<open>
  Claim C4, as stated for every call and every exit path, fails: the early return for an
  empty payload is a successful exit that leaves \<open>restartOnNext\<close> as it was. With
  \<open>restartOnNext\<close> set and \<open>nostop\<close> false, the field is still set after the call.
\<close>

theorem restartOnNext_kept_on_early_return:
  "tx rp2040 0x10 [] False 0 (idle True []) = Some (Inr (), idle True [])
   \<and> rx rp2040 0x10 [] False 0 (idle True []) = Some (Inr (), [], idle True [])
   \<and> restartOnNext (idle True []) \<noteq> False"
  by (simp add: tx_def rx_def isReservedI2CAddr_def idle_def)

text \<open>
  Claim C4, amended: for every call of \<open>tx\<close> or \<open>rx\<close> whose address passes the
  address check and whose payload is not empty, whenever the call returns (with success,
  after an abort or with a timeout) \<open>restartOnNext\<close> equals the \<open>nostop\<close> argument.
\<close>

theorem restartOnNext_is_nostop:
  assumes "\<not> (a \<ge> 0x80 \<or> isReservedI2CAddr a)" and "buf \<noteq> []"
  shows "(tx c a buf nostop timeout s = Some (res, s1) \<longrightarrow> restartOnNext s1 = nostop)
       \<and> (rx c a buf nostop timeout s = Some (res, buf2, s2) \<longrightarrow> restartOnNext s2 = nostop)"
  using assms
  by (auto simp: tx_def rx_def Let_def split: option.splits sum.splits
           dest!: tx_loop_Inl rx_loop_Inl)

theorem restartOnNext_is_nostop_witness:
  "(\<exists>s1. tx rp2040 0x10 [0xAA] True 5 (idle False [0x10]) = Some (Inl errI2CTimeout, s1)
         \<and> restartOnNext s1 = True)
   \<and> (\<exists>b2 s2. rx rp2040 0x10 [0] True 5 (idle False [0, 1, 0x5A]) = Some (Inr (), b2, s2)
         \<and> restartOnNext s2 = True)"
proof -
  have valid: "\<not> ((0x10::8 word) \<ge> 0x80 \<or> isReservedI2CAddr 0x10)"
    by (simp add: isReservedI2CAddr_def)
  obtain s1 where t: "tx rp2040 0x10 [0xAA] True 5 (idle False [0x10]) = Some (Inl errI2CTimeout, s1)"
    by (simp add: run_defs)
  obtain b2 s2 where r: "rx rp2040 0x10 [0] True 5 (idle False [0, 1, 0x5A]) = Some (Inr (), b2, s2)"
    by (simp add: run_defs)
  from restartOnNext_is_nostop [OF valid, of "[0xAA]" rp2040 True 5 "idle False [0x10]"
         "Inl errI2CTimeout" s1] t
  have "restartOnNext s1 = True" by simp
  moreover
  from restartOnNext_is_nostop [OF valid, of "[0]" rp2040 True 5 "idle False [0, 1, 0x5A]"
         "Inr ()" _ b2 s2] r
  have "restartOnNext s2 = True" by simp
  ultimately show ?thesis using t r by simp
qed

section \<open>The timeout check\<close>

lemma tx_timeout_needs_nonzero:
  "tx c a txb nostop timeout s = Some (Inl errI2CTimeout, s') \<Longrightarrow> timeout \<noteq> 0"
  by (auto simp: tx_def Let_def makeI2CBuffError_def split: if_splits option.splits sum.splits
           dest!: tx_loop_Inl)

lemma rx_timeout_needs_zero:
  "rx c a rxb nostop deadline s = Some (Inl errI2CTimeout, b, s') \<Longrightarrow> deadline = 0"
  by (auto simp: rx_def Let_def makeI2CBuffError_def split: if_splits option.splits sum.splits
           dest!: rx_loop_Inl)

text \<open>
  Claim C5: the read path treats a timeout as active exactly when the timeout integer is
  non-zero, as the write path does. The write path does (\<open>tx_timeout_needs_nonzero\<close>);
  the read path sets \<open>timeoutCheck := deadline == 0\<close>, under the comment "If no timeout
  was passed timeoutCheck is false". So \<open>rx\<close> with deadline 0 returns \<open>errI2CTimeout\<close>
  at the first poll that finds no byte, and \<open>rx\<close> with a deadline of 5 polls on without
  any timeout until the byte is there.
\<close>

theorem rx_timeout_check_inverted:
  "map_option fst (rx rp2040 0x10 [0] False 0 (idle False [0, 0, 0])) = Some (Inl errI2CTimeout)
   \<and> map_option (\<lambda>(res, b, s). (res, b))
        (rx rp2040 0x10 [0] False 5 (idle False [0, 0, 0, 0, 0, 1, 0x5A]))
       = Some (Inr (), [0x5A])"
  by (simp add: run_defs)

section \<open>Aborts\<close>

subsection \<open>The read path stops at an abort\<close>

lemma no_FIFO_access:
  "\<forall>a\<in>set tr. touches a \<noteq> IC_DATA_CMD \<Longrightarrow> \<not> FIFO_after_abort seen tr"
proof (induction tr arbitrary: seen)
  case Nil
  show ?case by simp
next
  case (Cons a tr)
  then show ?case by (cases a) auto
qed

lemma FIFO_after_abort_clean_prefix:
  "\<forall>a\<in>set pre. \<not> abort_load a \<Longrightarrow>
   FIFO_after_abort False (pre @ tr) = FIFO_after_abort False tr"
proof (induction pre)
  case Nil
  show ?case by simp
next
  case (Cons a pre)
  then show ?case by (cases a) auto
qed

lemma Get_reg_accesses:
  "Get_reg r s = Some (v, s1) \<Longrightarrow> accesses s1 = accesses s @ [Load r v]"
  by (auto simp: Get_reg_def split: list.splits)

lemma rx_wait_write_accesses:
  "rx_wait_write c s = Some s' \<Longrightarrow>
   \<exists>tr. accesses s' = accesses s @ tr
      \<and> (\<forall>a\<in>set tr. touches a \<noteq> IC_DATA_CMD \<and> \<not> abort_load a)"
proof (induction c s rule: rx_wait_write.induct)
  case (1 c s)
  from "1.prems" obtain n s1 where w: "writeAvailable c s = Some (n, s1)"
    by (subst (asm) rx_wait_write.simps) (auto split: option.splits)
  then obtain v where acc: "accesses s1 = accesses s @ [Load IC_RXFLR v]"
    by (auto simp: writeAvailable_def dest: Get_reg_accesses)
  show ?case
  proof (cases "n = 0")
    case True
    with "1.prems" w have "rx_wait_write c s1 = Some s'"
      by (subst (asm) rx_wait_write.simps) simp
    from "1.IH" [OF w refl True this] obtain tr where
      "accesses s' = accesses s1 @ tr"
      "\<forall>a\<in>set tr. touches a \<noteq> IC_DATA_CMD \<and> \<not> abort_load a" by blast
    with acc have "accesses s' = accesses s @ (Load IC_RXFLR v # tr)
      \<and> (\<forall>a\<in>set (Load IC_RXFLR v # tr). touches a \<noteq> IC_DATA_CMD \<and> \<not> abort_load a)"
      by simp
    then show ?thesis by blast
  next
    case False
    with "1.prems" w have "s' = s1"
      by (subst (asm) rx_wait_write.simps) simp
    with acc have "accesses s' = accesses s @ [Load IC_RXFLR v]
      \<and> (\<forall>a\<in>set [Load IC_RXFLR v]. touches a \<noteq> IC_DATA_CMD \<and> \<not> abort_load a)"
      by simp
    then show ?thesis by blast
  qed
qed

lemma rx_wait_read_aborted:
  "rx_wait_read timeoutCheck nostop True abortReason s = Some (res, s')
    \<Longrightarrow> res = Inr (True, abortReason)"
  by (subst (asm) rx_wait_read.simps) (auto split: option.splits)

lemma rx_wait_read_accesses:
  "rx_wait_read timeoutCheck nostop abort abortReason s = Some (res, s') \<Longrightarrow>
   \<exists>tr. accesses s' = accesses s @ tr
      \<and> (\<forall>a\<in>set tr. touches a \<noteq> IC_DATA_CMD)
      \<and> ((\<exists>r. res = Inr (False, r)) \<longrightarrow> (\<forall>a\<in>set tr. \<not> abort_load a))"
proof (induction timeoutCheck nostop abort abortReason s rule: rx_wait_read.induct)
  case (1 timeoutCheck nostop abort abortReason s)
  from "1.prems" obtain n s1 where g: "readAvailable s = Some (n, s1)"
    by (subst (asm) rx_wait_read.simps) (auto split: option.splits)
  then have acc1: "accesses s1 = accesses s @ [Load IC_RXFLR n]"
    by (auto simp: readAvailable_def dest: Get_reg_accesses)
  show ?case
  proof (cases "n = 0 \<and> \<not> abort")
    case False
    with "1.prems" g have "s' = s1"
      by (subst (asm) rx_wait_read.simps) (auto split: if_splits)
    with acc1 have "accesses s' = accesses s @ [Load IC_RXFLR n]
      \<and> (\<forall>a\<in>set [Load IC_RXFLR n]. touches a \<noteq> IC_DATA_CMD)
      \<and> (\<forall>a\<in>set [Load IC_RXFLR n]. \<not> abort_load a)" by simp
    then show ?thesis by blast
  next
    case True
    with "1.prems" g obtain r s2 where a: "Get_reg IC_TX_ABRT_SOURCE s1 = Some (r, s2)"
      by (subst (asm) rx_wait_read.simps) (auto split: option.splits)
    with acc1 have acc2:
      "accesses s2 = accesses s @ [Load IC_RXFLR n, Load IC_TX_ABRT_SOURCE r]"
      by (auto dest: Get_reg_accesses)
    show ?thesis
    proof (cases timeoutCheck)
      case tc: True
      with "1.prems" g a True have "res = Inl errI2CTimeout \<and> accesses s' = accesses s2"
        by (subst (asm) rx_wait_read.simps) (auto simp: Let_def)
      with acc2 have "accesses s' = accesses s @ [Load IC_RXFLR n, Load IC_TX_ABRT_SOURCE r]
        \<and> (\<forall>a\<in>set [Load IC_RXFLR n, Load IC_TX_ABRT_SOURCE r]. touches a \<noteq> IC_DATA_CMD)
        \<and> \<not> (\<exists>r. res = Inr (False, r))" by simp
      then show ?thesis by blast
    next
      case tc: False
      with "1.prems" g a True
      have rec: "rx_wait_read timeoutCheck nostop (if r \<noteq> 0 then True else abort) r s2
              = Some (res, s')"
        by (subst (asm) rx_wait_read.simps) (simp add: Let_def)
      from "1.IH" [OF g refl True a refl refl tc rec] obtain tr where tr:
        "accesses s' = accesses s2 @ tr"
        "\<forall>a\<in>set tr. touches a \<noteq> IC_DATA_CMD"
        "(\<exists>r. res = Inr (False, r)) \<longrightarrow> (\<forall>a\<in>set tr. \<not> abort_load a)" by blast
      have "(\<exists>r. res = Inr (False, r)) \<longrightarrow> r = 0"
      proof (cases "r = 0")
        case True
        then show ?thesis by simp
      next
        case False
        with rec have "rx_wait_read timeoutCheck nostop True r s2 = Some (res, s')" by simp
        from rx_wait_read_aborted [OF this] show ?thesis by simp
      qed
      with tr acc2
      have "accesses s' = accesses s @ ([Load IC_RXFLR n, Load IC_TX_ABRT_SOURCE r] @ tr)
        \<and> (\<forall>a\<in>set ([Load IC_RXFLR n, Load IC_TX_ABRT_SOURCE r] @ tr).
               touches a \<noteq> IC_DATA_CMD)
        \<and> ((\<exists>r. res = Inr (False, r))
             \<longrightarrow> (\<forall>a\<in>set ([Load IC_RXFLR n, Load IC_TX_ABRT_SOURCE r] @ tr). \<not> abort_load a))"
        by auto
      then show ?thesis by blast
    qed
  qed
qed

lemma rx_cmd_accesses:
  "\<exists>v. accesses (rx_cmd c rxb nostop byteCtr s) = accesses s @ [Store IC_DATA_CMD v]"
  by (simp add: rx_cmd_def Set_reg_def)

lemma rx_loop_no_FIFO_after_abort:
  "rx_loop c rxb nostop timeoutCheck byteCtr abort abortReason s = Some (res, b, s') \<Longrightarrow>
   \<not> abort \<Longrightarrow>
   \<exists>tr. accesses s' = accesses s @ tr \<and> \<not> FIFO_after_abort False tr"
proof (induction c rxb nostop timeoutCheck byteCtr abort abortReason s rule: rx_loop.induct)
  case (1 c rxb nostop timeoutCheck byteCtr abort abortReason s)
  from "1.prems"(1) show ?case
  proof (cases rule: rx_loop_cases)
    case finished
    then have "accesses s' = accesses s @ [] \<and> \<not> FIFO_after_abort False []" by simp
    then show ?thesis by blast
  next
    case (returned e s1)
    from rx_wait_write_accesses [OF returned(2)] obtain tr1 where tr1:
      "accesses s1 = accesses s @ tr1"
      "\<forall>a\<in>set tr1. touches a \<noteq> IC_DATA_CMD \<and> \<not> abort_load a" by blast
    from rx_cmd_accesses obtain w where
      cmd: "accesses (rx_cmd c rxb nostop byteCtr s1) = accesses s1 @ [Store IC_DATA_CMD w]"
      by blast
    from rx_wait_read_accesses [OF returned(3)] obtain tr3 where tr3:
      "accesses s' = accesses (rx_cmd c rxb nostop byteCtr s1) @ tr3"
      "\<forall>a\<in>set tr3. touches a \<noteq> IC_DATA_CMD" by blast
    have "\<not> FIFO_after_abort False (tr1 @ Store IC_DATA_CMD w # tr3)"
      using tr1(2) tr3(2) by (simp add: FIFO_after_abort_clean_prefix no_FIFO_access)
    moreover have "accesses s' = accesses s @ (tr1 @ Store IC_DATA_CMD w # tr3)"
      using tr1(1) cmd tr3(1) by simp
    ultimately show ?thesis by blast
  next
    case (broke abortReason1 s1)
    from rx_wait_write_accesses [OF broke(2)] obtain tr1 where tr1:
      "accesses s1 = accesses s @ tr1"
      "\<forall>a\<in>set tr1. touches a \<noteq> IC_DATA_CMD \<and> \<not> abort_load a" by blast
    from rx_cmd_accesses obtain w where
      cmd: "accesses (rx_cmd c rxb nostop byteCtr s1) = accesses s1 @ [Store IC_DATA_CMD w]"
      by blast
    from rx_wait_read_accesses [OF broke(3)] obtain tr3 where tr3:
      "accesses s' = accesses (rx_cmd c rxb nostop byteCtr s1) @ tr3"
      "\<forall>a\<in>set tr3. touches a \<noteq> IC_DATA_CMD" by blast
    have "\<not> FIFO_after_abort False (tr1 @ Store IC_DATA_CMD w # tr3)"
      using tr1(2) tr3(2) by (simp add: FIFO_after_abort_clean_prefix no_FIFO_access)
    moreover have "accesses s' = accesses s @ (tr1 @ Store IC_DATA_CMD w # tr3)"
      using tr1(1) cmd tr3(1) by simp
    ultimately show ?thesis by blast
  next
    case (continued abortReason1 s1 s3 v s4)
    from rx_wait_write_accesses [OF continued(2)] obtain tr1 where tr1:
      "accesses s1 = accesses s @ tr1"
      "\<forall>a\<in>set tr1. touches a \<noteq> IC_DATA_CMD \<and> \<not> abort_load a" by blast
    from rx_cmd_accesses obtain w where
      cmd: "accesses (rx_cmd c rxb nostop byteCtr s1) = accesses s1 @ [Store IC_DATA_CMD w]"
      by blast
    from rx_wait_read_accesses [OF continued(3)] obtain tr3 where tr3:
      "accesses s3 = accesses (rx_cmd c rxb nostop byteCtr s1) @ tr3"
      "\<forall>a\<in>set tr3. \<not> abort_load a" by blast
    from Get_reg_accesses [OF continued(4)]
    have pop: "accesses s4 = accesses s3 @ [Load IC_DATA_CMD v]" .
    from "1.IH" [OF continued(1) refl refl continued(2) refl
            continued(3) [unfolded rx_cmd_def] refl refl refl _ continued(4) refl
            continued(5)]
    obtain tr5 where tr5: "accesses s' = accesses s4 @ tr5" "\<not> FIFO_after_abort False tr5"
      by auto
    let ?pre = "tr1 @ Store IC_DATA_CMD w # tr3 @ [Load IC_DATA_CMD v]"
    have "\<forall>a\<in>set ?pre. \<not> abort_load a" using tr1(2) tr3(2) by auto
    from FIFO_after_abort_clean_prefix [OF this, of tr5] tr5(2)
    have "\<not> FIFO_after_abort False (?pre @ tr5)" by simp
    moreover have "accesses s' = accesses s @ (?pre @ tr5)"
      using tr1(1) cmd tr3(1) pop tr5(1) by simp
    ultimately show ?thesis by blast
  qed
qed

lemma rx_no_FIFO_after_abort:
  assumes "rx c a rxb nostop deadline s = Some (res, b, s')"
  shows "\<exists>tr. accesses s' = accesses s @ tr \<and> \<not> FIFO_after_abort False tr"
proof (cases "a \<ge> 0x80 \<or> isReservedI2CAddr a \<or> length rxb = 0")
  case True
  with assms have "accesses s' = accesses s @ [] \<and> \<not> FIFO_after_abort False []"
    by (auto simp: rx_def split: if_splits)
  then show ?thesis by blast
next
  case False
  let ?s1 = "enable (Set_reg IC_TAR (ucast a) (disable s))"
  let ?pre = "[Store IC_ENABLE 0, Store IC_TAR (ucast a), Store IC_ENABLE 1]"
  have pre: "accesses ?s1 = accesses s @ ?pre"
    by (simp add: enable_def disable_def Set_reg_def)
  from assms False obtain r1 s2 where
    loop: "rx_loop c rxb nostop (deadline = 0) 0 False 0 ?s1 = Some (r1, b, s2)"
    and acc: "accesses s' = accesses s2"
    by (auto simp: rx_def Let_def split: option.splits sum.splits)
  from rx_loop_no_FIFO_after_abort [OF loop] obtain tr where
    tr: "accesses s2 = accesses ?s1 @ tr" "\<not> FIFO_after_abort False tr" by auto
  have "\<forall>x\<in>set ?pre. \<not> abort_load x" by simp
  from FIFO_after_abort_clean_prefix [OF this, of tr] tr(2)
  have "\<not> FIFO_after_abort False (?pre @ tr)" by simp
  moreover have "accesses s' = accesses s @ (?pre @ tr)" using acc tr(1) pre by simp
  ultimately show ?thesis by blast
qed

text \<open>
  Claim C2: once an abort is observed, \<open>tx\<close> submits no further byte and \<open>rx\<close> pops
  none. \<open>rx\<close> leaves its loop with \<open>break\<close> (\<open>rx_no_FIFO_after_abort\<close>). The loop of
  \<open>tx\<close> has no \<open>break\<close>: writing two bytes, with the abort source reading 8 (data not
  acknowledged) after the first, the second byte is still stored in IC\_DATA\_CMD (with the
  STOP bit, \<open>0x2BB\<close>) after the abort was read and cleared.
\<close>

theorem tx_submits_after_abort:
  "map_option (\<lambda>(res, s). (res, accesses s))
     (tx rp2040 0x10 [0xAA, 0xBB] False 0 (idle False [0, 8, 0, 0, 0, 0, 0, 0, 0]))
   = Some (Inl errI2CGeneric,
       [Store IC_ENABLE 0, Store IC_TAR 0x10, Store IC_ENABLE 1,
        Store IC_DATA_CMD 0xAA, Load IC_RAW_INTR_STAT 0,
        Load IC_TX_ABRT_SOURCE 8, Load IC_CLR_TX_ABRT 0,
        Load IC_RAW_INTR_STAT 0, Load IC_CLR_STOP_DET 0,
        Store IC_DATA_CMD 0x2BB, Load IC_RAW_INTR_STAT 0,
        Load IC_TX_ABRT_SOURCE 0, Load IC_RAW_INTR_STAT 0, Load IC_CLR_STOP_DET 0])
   \<and> FIFO_after_abort False
       [Store IC_ENABLE 0, Store IC_TAR 0x10, Store IC_ENABLE 1,
        Store IC_DATA_CMD 0xAA, Load IC_RAW_INTR_STAT 0,
        Load IC_TX_ABRT_SOURCE 8, Load IC_CLR_TX_ABRT 0,
        Load IC_RAW_INTR_STAT 0, Load IC_CLR_STOP_DET 0,
        Store IC_DATA_CMD 0x2BB, Load IC_RAW_INTR_STAT 0,
        Load IC_TX_ABRT_SOURCE 0, Load IC_RAW_INTR_STAT 0, Load IC_CLR_STOP_DET 0]"
  by (simp add: run_defs)

subsection \<open>The index of a data error\<close>

lemma tx_i2cBuffError_index:
  "tx c a txb nostop timeout s = Some (Inl (i2cBuffError k), s') \<Longrightarrow> k = int (length txb)"
  by (auto simp: tx_def Let_def makeI2CBuffError_def split: if_splits option.splits sum.splits
           dest!: tx_loop_Inl tx_loop_Inr)

lemma rx_loop_abort_index:
  "rx_loop c rxb nostop timeoutCheck byteCtr abort abortReason s
     = Some (Inr (True, r, k), b, s') \<Longrightarrow>
   \<not> abort \<Longrightarrow> k < length rxb"
proof (induction c rxb nostop timeoutCheck byteCtr abort abortReason s rule: rx_loop.induct)
  case (1 c rxb nostop timeoutCheck byteCtr abort abortReason s)
  from "1.prems"(1) show ?case
  proof (cases rule: rx_loop_cases)
    case finished
    with "1.prems"(2) show ?thesis by simp
  next
    case (returned e s1)
    then show ?thesis by simp
  next
    case (broke abortReason1 s1)
    then show ?thesis by simp
  next
    case (continued abortReason1 s1 s3 v s4)
    from "1.IH" [OF continued(1) refl refl continued(2) refl
            continued(3) [unfolded rx_cmd_def] refl refl refl _ continued(4) refl
            continued(5)]
    show ?thesis by simp
  qed
qed

lemma rx_i2cBuffError_index:
  "rx c a rxb nostop deadline s = Some (Inl (i2cBuffError k), b, s') \<Longrightarrow>
   0 \<le> k \<and> k < int (length rxb)"
  by (auto simp: rx_def Let_def makeI2CBuffError_def split: if_splits option.splits sum.splits
           dest!: rx_loop_Inl rx_loop_abort_index)

text \<open>
  Claim C7: an abort is classified from the abort source, and a data error carries the
  index of the byte at which the transfer failed. In \<open>rx\<close> the loop breaks in the round
  that saw the abort, and the index is below the length of the buffer
  (\<open>rx_i2cBuffError_index\<close>). In \<open>tx\<close> the loop runs on to the end after an abort, so the
  index is always the length of the payload (\<open>tx_i2cBuffError_index\<close>) and the abort
  source classified is the one read in the last round. Writing three bytes with a data-NACK
  (abort source 8) at index 1: when the last round reads 8 again the error is
  \<open>i2cBuffError 3\<close>, not index 1; when the last round reads 0 the error is the generic
  \<open>errI2CGeneric\<close>, not a data error.
\<close>

theorem tx_abort_index_is_length:
  "map_option fst
     (tx rp2040 0x10 [0xAA, 0xBB, 0xCC] False 0 (idle False [0, 0, 0, 8, 0, 0, 0, 0, 8, 0, 0, 0]))
   = Some (Inl (i2cBuffError 3))
   \<and> map_option fst
     (tx rp2040 0x10 [0xAA, 0xBB, 0xCC] False 0 (idle False [0, 0, 0, 8, 0, 0, 0, 0, 0, 0, 0]))
   = Some (Inl errI2CGeneric)"
  by (simp add: run_defs)

section \<open>The public Tx\<close>

subsection \<open>The target address register\<close>

text \<open>
  Loads leave the stored register values as they are, and the loops store to IC\_DATA\_CMD
  only: IC\_TAR keeps what \<open>tx\<close> and \<open>rx\<close> stored there before their loops, the address
  widened to 32 bits.
\<close>

lemma Get_reg_regs: "Get_reg r s = Some (v, s1) \<Longrightarrow> regs s1 = regs s"
  by (auto simp: Get_reg_def split: list.splits)

lemma tx_wait_regs:
  "tx_wait flag timeoutCheck nostop s = Some (b, s') \<Longrightarrow> regs s' = regs s"
proof (induction flag timeoutCheck nostop s rule: tx_wait.induct)
  case (1 flag timeoutCheck nostop s)
  from "1.prems" obtain v s1 where g: "Get_reg IC_RAW_INTR_STAT s = Some (v, s1)"
    by (subst (asm) tx_wait.simps) (auto split: option.splits)
  show ?case
  proof (cases "v AND flag \<noteq> 0 \<and> \<not> timeoutCheck")
    case True
    with "1.prems" g have "tx_wait flag timeoutCheck nostop s1 = Some (b, s')"
      by (subst (asm) tx_wait.simps) simp
    with "1.IH" [OF g refl] True Get_reg_regs [OF g] show ?thesis by simp
  next
    case False
    with "1.prems" g Get_reg_regs [OF g] show ?thesis
      by (subst (asm) tx_wait.simps) (auto split: if_splits)
  qed
qed

lemma tx_round_TAR:
  "tx_round c txb nostop timeoutCheck byteCtr abort s = Some (res, s')
    \<Longrightarrow> regs s' IC_TAR = regs s IC_TAR"
  unfolding tx_round_def Let_def
  by (auto simp: Set_reg_def split: option.splits if_splits bool.splits
           dest!: tx_wait_regs Get_reg_regs)

lemma tx_loop_TAR:
  "tx_loop c txb nostop timeoutCheck byteCtr abort abortReason s = Some (res, s')
    \<Longrightarrow> regs s' IC_TAR = regs s IC_TAR"
proof (induction c txb nostop timeoutCheck byteCtr abort abortReason s rule: tx_loop.induct)
  case (1 c tx nostop timeoutCheck byteCtr abort abortReason s)
  from "1.prems" show ?case
  proof (cases rule: tx_loop_cases)
    case finished
    then show ?thesis by simp
  next
    case (returned e1)
    then show ?thesis by (auto dest!: tx_round_TAR)
  next
    case (continued abort1 abortReason1 s1)
    with "1.IH" [OF continued(1,2) refl refl refl] tx_round_TAR [OF continued(2)]
    show ?thesis by simp
  qed
qed

lemma tx_TAR:
  assumes "\<not> (a \<ge> 0x80 \<or> isReservedI2CAddr a)" and "txb \<noteq> []"
    and "tx c a txb nostop timeout s = Some (res, s')"
  shows "regs s' IC_TAR = ucast a"
proof -
  let ?s1 = "enable (Set_reg IC_TAR (ucast a) (disable s))"
  have t: "regs ?s1 IC_TAR = ucast a" by (simp add: enable_def disable_def Set_reg_def)
  from assms obtain r1 s2 where
    loop: "tx_loop c txb nostop (timeout \<noteq> 0) 0 False 0 ?s1 = Some (r1, s2)"
    and "regs s' = regs s2"
    by (auto simp: tx_def Let_def split: option.splits sum.splits)
  with tx_loop_TAR [OF loop] t show ?thesis by simp
qed

lemma rx_wait_write_regs:
  "rx_wait_write c s = Some s' \<Longrightarrow> regs s' = regs s"
proof (induction c s rule: rx_wait_write.induct)
  case (1 c s)
  from "1.prems" obtain n s1 where w: "writeAvailable c s = Some (n, s1)"
    by (subst (asm) rx_wait_write.simps) (auto split: option.splits)
  then have r: "regs s1 = regs s"
    by (auto simp: writeAvailable_def dest: Get_reg_regs)
  show ?case
  proof (cases "n = 0")
    case True
    with "1.prems" w have "rx_wait_write c s1 = Some s'"
      by (subst (asm) rx_wait_write.simps) simp
    from "1.IH" [OF w refl True this] r show ?thesis by simp
  next
    case False
    with "1.prems" w r show ?thesis
      by (subst (asm) rx_wait_write.simps) simp
  qed
qed

lemma rx_wait_read_regs:
  "rx_wait_read timeoutCheck nostop abort abortReason s = Some (res, s') \<Longrightarrow> regs s' = regs s"
proof (induction timeoutCheck nostop abort abortReason s rule: rx_wait_read.induct)
  case (1 timeoutCheck nostop abort abortReason s)
  from "1.prems" obtain n s1 where g: "readAvailable s = Some (n, s1)"
    by (subst (asm) rx_wait_read.simps) (auto split: option.splits)
  then have r1: "regs s1 = regs s"
    by (auto simp: readAvailable_def dest: Get_reg_regs)
  show ?case
  proof (cases "n = 0 \<and> \<not> abort")
    case False
    with "1.prems" g r1 show ?thesis
      by (subst (asm) rx_wait_read.simps) (auto split: if_splits)
  next
    case True
    with "1.prems" g obtain r s2 where a: "Get_reg IC_TX_ABRT_SOURCE s1 = Some (r, s2)"
      by (subst (asm) rx_wait_read.simps) (auto split: option.splits)
    with r1 have r2: "regs s2 = regs s" by (auto dest: Get_reg_regs)
    show ?thesis
    proof (cases timeoutCheck)
      case tc: True
      with "1.prems" g a True r2 show ?thesis
        by (subst (asm) rx_wait_read.simps) (auto simp: Let_def)
    next
      case tc: False
      with "1.prems" g a True
      have rec: "rx_wait_read timeoutCheck nostop (if r \<noteq> 0 then True else abort) r s2
              = Some (res, s')"
        by (subst (asm) rx_wait_read.simps) (simp add: Let_def)
      from "1.IH" [OF g refl True a refl refl tc rec] r2 show ?thesis by simp
    qed
  qed
qed

lemma rx_cmd_TAR: "regs (rx_cmd c rxb nostop byteCtr s) IC_TAR = regs s IC_TAR"
  by (simp add: rx_cmd_def Set_reg_def)

lemma rx_loop_TAR:
  "rx_loop c rxb nostop timeoutCheck byteCtr abort abortReason s = Some (res, b, s')
    \<Longrightarrow> regs s' IC_TAR = regs s IC_TAR"
proof (induction c rxb nostop timeoutCheck byteCtr abort abortReason s rule: rx_loop.induct)
  case (1 c rxb nostop timeoutCheck byteCtr abort abortReason s)
  from "1.prems" show ?case
  proof (cases rule: rx_loop_cases)
    case finished
    then show ?thesis by simp
  next
    case (returned e s1)
    from rx_wait_write_regs [OF returned(2)] rx_wait_read_regs [OF returned(3)]
    show ?thesis by (simp add: rx_cmd_TAR)
  next
    case (broke abortReason1 s1)
    from rx_wait_write_regs [OF broke(2)] rx_wait_read_regs [OF broke(3)]
    show ?thesis by (simp add: rx_cmd_TAR)
  next
    case (continued abortReason1 s1 s3 v s4)
    from "1.IH" [OF continued(1) refl refl continued(2) refl
            continued(3) [unfolded rx_cmd_def] refl refl refl _ continued(4) refl] continued(5)
    have "regs s' IC_TAR = regs s4 IC_TAR" by simp
    with rx_wait_write_regs [OF continued(2)] rx_wait_read_regs [OF continued(3)]
      Get_reg_regs [OF continued(4)]
    show ?thesis by (simp add: rx_cmd_TAR)
  qed
qed

lemma rx_TAR:
  assumes "\<not> (a \<ge> 0x80 \<or> isReservedI2CAddr a)" and "rxb \<noteq> []"
    and "rx c a rxb nostop deadline s = Some (res, b, s')"
  shows "regs s' IC_TAR = ucast a"
proof -
  let ?s1 = "enable (Set_reg IC_TAR (ucast a) (disable s))"
  have t: "regs ?s1 IC_TAR = ucast a" by (simp add: enable_def disable_def Set_reg_def)
  from assms obtain r1 s2 where
    loop: "rx_loop c rxb nostop (deadline = 0) 0 False 0 ?s1 = Some (r1, b, s2)"
    and "regs s' = regs s2"
    by (auto simp: rx_def Let_def split: option.splits sum.splits)
  with rx_loop_TAR [OF loop] t show ?thesis by simp
qed

lemma Tx_TAR:
  assumes v: "\<not> ((ucast a :: 8 word) \<ge> 0x80 \<or> isReservedI2CAddr (ucast a))"
    and ne: "w \<noteq> [] \<or> r \<noteq> []"
    and run: "Tx c a w r s = Some (res, b, s')"
  shows "regs s' IC_TAR = ucast (ucast a :: 8 word)"
proof (cases "w = []")
  case True
  with ne have r: "r \<noteq> []" by simp
  from run True r obtain res1 where "rx c (ucast a) r False 0 s = Some (res1, b, s')"
    by (auto simp: Tx_def split: option.splits sum.splits)
  from rx_TAR [OF v r this] show ?thesis .
next
  case False
  from run False obtain res1 s1 where t: "tx c (ucast a) w False 0 s = Some (res1, s1)"
    by (auto simp: Tx_def split: option.splits)
  from tx_TAR [OF v False t] have t1: "regs s1 IC_TAR = ucast (ucast a :: 8 word)" .
  show ?thesis
  proof (cases "r = [] \<or> (\<exists>e. res1 = Inl e)")
    case True
    with run False t have "s' = s1"
      by (auto simp: Tx_def split: sum.splits)
    with t1 show ?thesis by simp
  next
    case ff: False
    with run False t obtain res2 where "rx c (ucast a) r False 0 s1 = Some (res2, b, s')"
      by (auto simp: Tx_def split: option.splits sum.splits)
    from rx_TAR [OF v _ this] ff show ?thesis by simp
  qed
qed

subsection \<open>A transfer that completes\<close>

text \<open>
  A write with \<open>nostop\<close> false takes two loads for every byte but the last and four for
  the last. When all of them read 0 it returns success and leaves the rest of the feed; a
  read that follows finds what it needs there.
\<close>

lemma tx_round_feed_inner:
  assumes "feed s = 0 # 0 # fd" and "\<not> (byteCtr = length txb - 1 \<and> \<not> nostop)"
  shows "\<exists>s'. tx_round c txb nostop timeoutCheck byteCtr False s = Some (Inr (False, 0), s')
           \<and> feed s' = fd"
  using assms
  by (auto simp: tx_round_def Let_def Set_reg_def Get_reg_def tx_wait_zero)

lemma tx_round_feed_last:
  assumes "feed s = 0 # 0 # 0 # 0 # fd" and "byteCtr = length txb - 1 \<and> \<not> nostop"
  shows "\<exists>s'. tx_round c txb nostop timeoutCheck byteCtr False s = Some (Inr (False, 0), s')
           \<and> feed s' = fd"
  using assms
  by (simp add: tx_round_def Let_def Set_reg_def Get_reg_def tx_wait_zero)

lemma tx_loop_feed:
  "byteCtr < length txb \<Longrightarrow>
   feed s = replicate (2 * (length txb - byteCtr) + 2) 0 @ fd \<Longrightarrow>
   \<exists>r s'. tx_loop c txb False timeoutCheck byteCtr False abortReason s
            = Some (Inr (False, r, length txb), s') \<and> feed s' = fd"
proof (induction "length txb - byteCtr" arbitrary: byteCtr abortReason s)
  case 0
  then show ?case by simp
next
  case (Suc d)
  show ?case
  proof (cases "byteCtr = length txb - 1")
    case True
    with Suc.prems have "feed s = 0 # 0 # 0 # 0 # fd"
      by (simp add: numeral_eq_Suc)
    from tx_round_feed_last [OF this, of byteCtr txb False c timeoutCheck] True
    obtain s1 where
      rnd: "tx_round c txb False timeoutCheck byteCtr False s = Some (Inr (False, 0), s1)"
      and fd: "feed s1 = fd" by auto
    from True Suc.prems(1) have "\<not> Suc byteCtr < length txb" "Suc byteCtr = length txb"
      by simp_all
    with tx_loop_next [OF Suc.prems(1) rnd, of abortReason] fd show ?thesis
      by (simp add: tx_loop_done)
  next
    case False
    with Suc.prems(1) have lt: "Suc byteCtr < length txb" by simp
    have "length txb - byteCtr = Suc (length txb - Suc byteCtr)"
      using Suc.prems(1) by simp
    then have "2 * (length txb - byteCtr) + 2
        = Suc (Suc (2 * (length txb - Suc byteCtr) + 2))" by simp
    with Suc.prems(2) have
      f: "feed s = 0 # 0 # (replicate (2 * (length txb - Suc byteCtr) + 2) 0 @ fd)"
      by (simp del: replicate_add)
    from tx_round_feed_inner [OF f, of byteCtr txb False c timeoutCheck] False
    obtain s1 where
      rnd: "tx_round c txb False timeoutCheck byteCtr False s = Some (Inr (False, 0), s1)"
      and fd: "feed s1 = replicate (2 * (length txb - Suc byteCtr) + 2) 0 @ fd" by auto
    from Suc.hyps(2) have d: "d = length txb - Suc byteCtr" by simp
    from Suc.hyps(1) [OF d lt fd, of 0] tx_loop_next [OF Suc.prems(1) rnd, of abortReason]
    show ?thesis by simp
  qed
qed

lemma tx_completes:
  assumes "\<not> (a \<ge> 0x80 \<or> isReservedI2CAddr a)" and "txb \<noteq> []"
    and "feed s = replicate (2 * length txb + 2) 0 @ fd"
  shows "\<exists>s'. tx c a txb False timeout s = Some (Inr (), s') \<and> feed s' = fd"
proof -
  let ?s1 = "enable (Set_reg IC_TAR (ucast a) (disable s))"
  from assms(3) have "feed ?s1 = replicate (2 * (length txb - 0) + 2) 0 @ fd"
    by (simp add: enable_def disable_def Set_reg_def)
  from tx_loop_feed [OF _ this, of c "timeout \<noteq> 0" 0] assms(2)
  obtain r s2 where "tx_loop c txb False (timeout \<noteq> 0) 0 False 0 ?s1
      = Some (Inr (False, r, length txb), s2)" "feed s2 = fd" by auto
  with assms(1,2) show ?thesis by (simp add: tx_def Let_def)
qed

lemma Tx_completes:
  assumes v: "\<not> ((ucast a :: 8 word) \<ge> 0x80 \<or> isReservedI2CAddr (ucast a))"
    and f: "feed s = replicate (if w = [] then 0 else 2 * length w + 2) 0 @ replicate n x"
    and x: "x \<noteq> 0" "x \<noteq> I2C0_IC_COMP_PARAM_1_TX_BUFFER_DEPTH_Pos c"
    and n: "3 * length r \<le> n"
  shows "\<exists>b s'. Tx c a w r s = Some (Inr (), b, s')"
proof -
  have "\<exists>s1. (if length w > 0 then tx c (ucast a) w False 0 s else Some (Inr (), s))
           = Some (Inr (), s1) \<and> feed s1 = replicate n x"
  proof (cases "w = []")
    case True
    with f show ?thesis by simp
  next
    case False
    with f have "feed s = replicate (2 * length w + 2) 0 @ replicate n x" by simp
    from tx_completes [OF v False this, of c 0] False show ?thesis by simp
  qed
  then obtain s1 where
    t: "(if length w > 0 then tx c (ucast a) w False 0 s else Some (Inr (), s)) = Some (Inr (), s1)"
    and f1: "feed s1 = replicate n x" by blast
  from rx_returns [OF v f1 x n, of False 0] obtain b s' where
    "rx c (ucast a) r False 0 s1 = Some (Inr (), b, s')" by blast
  with t show ?thesis by (auto simp: Tx_def rx_def)
qed

lemma Tx_rejects_invalid_low_byte:
  assumes "(ucast a :: 8 word) \<ge> 0x80 \<or> isReservedI2CAddr (ucast a)" and "w \<noteq> [] \<or> r \<noteq> []"
  shows "Tx c a w r s = Some (Inl errInvalidTgtAddr, r, s)"
  using assms by (auto simp: Tx_def tx_def rx_def)

text \<open>
  Claim C10: \<open>Tx\<close> validates and uses only the low 8 bits of its 16-bit address.
  \<open>Tx a w r\<close> is \<open>Tx (a mod 256) w r\<close>. When the low byte fails the address check and
  one of the two phases is not empty, \<open>Tx\<close> returns \<open>errInvalidTgtAddr\<close> in the state
  it started from; when the low byte passes the check, \<open>Tx\<close> never returns that error,
  whatever the high byte is, every call that returns with a phase that is not empty leaves
  the low byte in IC\_TAR, and the call returns success when the controller answers (0 for
  the loads of the write phase, one value other than 0 and other than the write-space
  constant for the loads of the read phase).
\<close>

theorem Tx_uses_low_byte:
  "Tx c a w r s = Tx c (a mod 256) w r s
   \<and> (((ucast a :: 8 word) \<ge> 0x80 \<or> isReservedI2CAddr (ucast a)) \<and> (w \<noteq> [] \<or> r \<noteq> [])
        \<longrightarrow> Tx c a w r s = Some (Inl errInvalidTgtAddr, r, s))
   \<and> (\<not> ((ucast a :: 8 word) \<ge> 0x80 \<or> isReservedI2CAddr (ucast a))
        \<longrightarrow> Tx c a w r s \<noteq> Some (Inl errInvalidTgtAddr, r', s'))
   \<and> (\<not> ((ucast a :: 8 word) \<ge> 0x80 \<or> isReservedI2CAddr (ucast a)) \<and> (w \<noteq> [] \<or> r \<noteq> [])
        \<and> Tx c a w r s = Some (res, b, s1)
        \<longrightarrow> regs s1 IC_TAR = ucast (ucast a :: 8 word))
   \<and> (\<not> ((ucast a :: 8 word) \<ge> 0x80 \<or> isReservedI2CAddr (ucast a))
        \<and> feed s = replicate (if w = [] then 0 else 2 * length w + 2) 0 @ replicate n x
        \<and> x \<noteq> 0 \<and> x \<noteq> I2C0_IC_COMP_PARAM_1_TX_BUFFER_DEPTH_Pos c \<and> 3 * length r \<le> n
        \<longrightarrow> (\<exists>b2 s2. Tx c a w r s = Some (Inr (), b2, s2)))"
proof -
  have "Tx c a w r s = Tx c (a mod 256) w r s"
    by (simp only: Tx_def ucast_low_byte)
  moreover have "\<not> ((ucast a :: 8 word) \<ge> 0x80 \<or> isReservedI2CAddr (ucast a))
        \<longrightarrow> Tx c a w r s \<noteq> Some (Inl errInvalidTgtAddr, r', s')"
    by (auto simp: Tx_def tx_not_errInvalidTgtAddr rx_not_errInvalidTgtAddr
             split: option.splits sum.splits if_splits)
  ultimately show ?thesis
    using Tx_rejects_invalid_low_byte [of a w r c s] Tx_TAR [of a w r c s res b s1]
      Tx_completes [of a s w n x c r]
    by blast
qed

theorem Tx_uses_low_byte_witness:
  "(0x0110 :: 16 word) \<ge> 0x80
   \<and> Tx rp2040 0x0110 [0xAA] [0] (idle False [0, 0, 0, 0, 1, 1, 1])
       = Tx rp2040 0x0010 [0xAA] [0] (idle False [0, 0, 0, 0, 1, 1, 1])
   \<and> (\<exists>b2 s2. Tx rp2040 0x0110 [0xAA] [0] (idle False [0, 0, 0, 0, 1, 1, 1])
                 = Some (Inr (), b2, s2) \<and> regs s2 IC_TAR = 0x10)
   \<and> Tx rp2040 0x0190 [0xAA] [0] (idle False [0, 0, 0, 0, 1, 1, 1])
       = Some (Inl errInvalidTgtAddr, [0], idle False [0, 0, 0, 0, 1, 1, 1])"
proof -
  let ?s = "idle False [0, 0, 0, 0, 1, 1, 1]"
  have v: "\<not> ((ucast (0x0110 :: 16 word) :: 8 word) \<ge> 0x80
             \<or> isReservedI2CAddr (ucast (0x0110 :: 16 word)))"
    by (simp add: isReservedI2CAddr_def)
  have iv: "(ucast (0x0190 :: 16 word) :: 8 word) \<ge> 0x80
             \<or> isReservedI2CAddr (ucast (0x0190 :: 16 word))"
    by simp
  have ne: "[0xAA :: 8 word] \<noteq> [] \<or> [0 :: 8 word] \<noteq> []"
    by simp
  have f: "feed ?s = replicate (if [0xAA :: 8 word] = [] then 0 else 2 * length [0xAA :: 8 word] + 2) 0
             @ replicate 3 1"
    by (simp add: idle_def numeral_eq_Suc)
  have x: "(1 :: 32 word) \<noteq> 0" "(1 :: 32 word) \<noteq> I2C0_IC_COMP_PARAM_1_TX_BUFFER_DEPTH_Pos rp2040"
    by (simp_all add: rp2040_def)
  have n: "3 * length [0 :: 8 word] \<le> 3"
    by simp
  from Tx_uses_low_byte [of rp2040 "0x0110" "[0xAA]" "[0]" ?s "[]" ?s "Inr ()" "[]" ?s 3 1]
    v f x n
  have "\<exists>b2 s2. Tx rp2040 0x0110 [0xAA] [0] ?s = Some (Inr (), b2, s2)" by blast
  then obtain b2 s2 where
    run: "Tx rp2040 0x0110 [0xAA] [0] ?s = Some (Inr (), b2, s2)" by blast
  from Tx_uses_low_byte [of rp2040 "0x0110" "[0xAA]" "[0]" ?s "[]" ?s "Inr ()" b2 s2 3 1]
    v ne run
  have "regs s2 IC_TAR = ucast (ucast (0x0110 :: 16 word) :: 8 word)" by blast
  then have tar: "regs s2 IC_TAR = 0x10" by simp
  from Tx_uses_low_byte [of rp2040 "0x0110" "[0xAA]" "[0]" ?s "[]" ?s "Inr ()" "[]" ?s 3 1]
  have "Tx rp2040 0x0110 [0xAA] [0] ?s = Tx rp2040 (0x0110 mod 256) [0xAA] [0] ?s" by blast
  then have eq: "Tx rp2040 0x0110 [0xAA] [0] ?s = Tx rp2040 0x0010 [0xAA] [0] ?s" by simp
  from Tx_uses_low_byte [of rp2040 "0x0190" "[0xAA]" "[0]" ?s "[]" ?s "Inr ()" "[]" ?s 3 1]
    iv ne
  have bad: "Tx rp2040 0x0190 [0xAA] [0] ?s = Some (Inl errInvalidTgtAddr, [0], ?s)" by blast
  have "(0x0110 :: 16 word) \<ge> 0x80" by simp
  with run tar eq bad show ?thesis by blast
qed

section \<open>Installing the dispatcher\<close>

lemmas irq_defs =
  irqSetExclusiveHandler_def spinLock_init_def PICO_SPINLOCK_ID_IRQ_def NUMSPINLOCKS_def
  NUMIRQ_def lock_def unlock_def getVtableHandler_def setVtableHandler_def Let_def

lemma irqSetExclusiveHandler_occupied:
  assumes "num < NUMIRQ" and "vtable s (unat num + 16) \<noteq> None" and "lock s = Some (is, s1)"
  shows "irqSetExclusiveHandler num handler s
     = Some (Inl (panic ''can't set handler due to non nil actual handler''), s1)"
  using assms by (auto simp: irq_defs split: option.splits)

text \<open>
  Claim C3: installing the same handler twice on an interrupt line succeeds, and installing
  a different handler on an occupied line fails fatally. The code panics whenever the
  entry is not \<open>nil\<close>, whatever the new handler is (\<open>irqSetExclusiveHandler_occupied\<close>),
  although its comment quotes the check of the C SDK that accepts the same handler. On an
  empty table the first installation of the dispatcher on line 13 succeeds and the second
  one, of the same handler, panics; so does the second \<open>setIRQ\<close> on a core
  (\<open>setIRQ_twice\<close>).
\<close>

theorem irqSetExclusiveHandler_same_handler_twice:
  "map_option fst (irqSetExclusiveHandler 13 (Some gpioirqHandler_fn) (boot [0, 0]))
     = Some (Inr ())
   \<and> (case irqSetExclusiveHandler 13 (Some gpioirqHandler_fn) (boot [0, 0]) of
        Some (_, s1) \<Rightarrow> map_option fst (irqSetExclusiveHandler 13 (Some gpioirqHandler_fn) s1)
      | None \<Rightarrow> None)
     = Some (Inl (panic ''can't set handler due to non nil actual handler''))"
  by (simp add: irq_defs boot_def)

lemma setIRQ_twice:
  "(case setIRQ rp2040_extern 3 4 (Some cb) (boot [0, 0]) of
        Some (Inr _, s1) \<Rightarrow> map_option fst (setIRQ rp2040_extern 5 4 (Some cb) s1)
      | _ \<Rightarrow> None)
     = Some (Inl (panic ''can't set handler due to non nil actual handler''))"
  by (simp add: setIRQ_def irq_defs boot_def rp2040_extern_def irqSet_def irqSetMask_def)

section \<open>The dispatcher\<close>

lemma gpio_scan_finds:
  assumes "p < NUMBANK0_GPIOS" and "getIntChange x p (intS (p div 8)) \<noteq> 0"
    and "\<forall>q. g \<le> q \<and> q < p \<longrightarrow> getIntChange x q (intS (q div 8)) = 0"
    and "g \<le> p"
  shows "gpio_scan x core intS g s =
     (let s1 = s\<lparr>trace := trace s @ [acknowledgeInterrupt p (getIntChange x p (intS (p div 8)))]\<rparr>
      in case pinCallbacks s core of
           Some callback \<Rightarrow> (Inr (), s1\<lparr>user := callback p (user s)\<rparr>)
         | None \<Rightarrow> (Inl (panic ''unset callback in handler''), s1))"
  using assms
proof (induction "p - g" arbitrary: g)
  case 0
  then have "g = p" by simp
  with 0 show ?case
    by (subst gpio_scan.simps) (simp add: Let_def drop_bit_eq_div split: option.splits)
next
  case (Suc n)
  then have lt: "g < p" and z: "getIntChange x g (intS (g div 8)) = 0" by auto
  from Suc.hyps(1) [of "Suc g"] Suc.prems Suc.hyps(2) lt
  have "gpio_scan x core intS (Suc g) s =
     (let s1 = s\<lparr>trace := trace s @ [acknowledgeInterrupt p (getIntChange x p (intS (p div 8)))]\<rparr>
      in case pinCallbacks s core of
           Some callback \<Rightarrow> (Inr (), s1\<lparr>user := callback p (user s)\<rparr>)
         | None \<Rightarrow> (Inl (panic ''unset callback in handler''), s1))"
    by auto
  moreover from lt Suc.prems(1) z
  have "gpio_scan x core intS g s = gpio_scan x core intS (Suc g) s"
    by (subst gpio_scan.simps) (simp add: Let_def drop_bit_eq_div)
  ultimately show ?case by simp
qed

text \<open>
  Claim C6, as stated, fails in one point: the callback is not given the event mask. It
  has the type \<open>func(Pin)\<close> and is called as \<open>callback(gpio)\<close>. With pin 3 pending on
  core 0, once with the event bits 4 and once with the event bits 8, a callback that
  records all it is given records the pin 3 both times; only the acknowledgement carries
  the event bits.
\<close>

theorem gpioirqHandler_callback_gets_no_event_mask:
  "getIntChange rp2040_extern 3 0x4000 = 4
   \<and> getIntChange rp2040_extern 3 0x8000 = 8
   \<and> (\<lambda>(res, s). (res, trace s, user s)) (gpioirqHandler rp2040_extern (pending 0x4000 0))
       = (Inr (), [acknowledgeInterrupt 3 4], [3])
   \<and> (\<lambda>(res, s). (res, trace s, user s)) (gpioirqHandler rp2040_extern (pending 0x8000 0))
       = (Inr (), [acknowledgeInterrupt 3 8], [3])"
  by code_simp

text \<open>
  Claim C6, amended: on core 0 or 1 with a callback registered for that core, and with at
  least one pin pending in that core's status bank, one call of the dispatcher services
  exactly one pin, the pending pin \<open>p\<close> of lowest index in the scan order 0..29: it
  acknowledges that pin's events and calls the core's callback with the pin identity only,
  then returns. The state after the call is the state before it with that one
  acknowledgement logged and that one callback applied; nothing is done for other pending
  pins.
\<close>

theorem gpioirqHandler_services_lowest_pin:
  assumes "CurrentCore s < 2"
    and "pinCallbacks s (CurrentCore s) = Some callback"
    and "intS = (if CurrentCore s = 0 then proc0IRQctrl_intS s else proc1IRQctrl_intS s)"
    and "p < NUMBANK0_GPIOS"
    and "getIntChange x p (intS (p div 8)) \<noteq> 0"
    and "\<forall>q<p. getIntChange x q (intS (q div 8)) = 0"
  shows "gpioirqHandler x s =
     (Inr (), s\<lparr>trace := trace s @ [acknowledgeInterrupt p (getIntChange x p (intS (p div 8)))],
               user := callback p (user s)\<rparr>)"
proof -
  from assms(1,3) have b: "base_intS (CurrentCore s) s = Some intS"
    by (auto simp: base_intS_def)
  from assms(6) have "\<forall>q. 0 \<le> q \<and> q < p \<longrightarrow> getIntChange x q (intS (q div 8)) = 0" by simp
  from gpio_scan_finds [OF assms(4,5) this, of "CurrentCore s" s] assms(2) b
  show ?thesis by (simp add: gpioirqHandler_def Let_def)
qed

theorem gpioirqHandler_services_lowest_pin_witness:
  "gpioirqHandler rp2040_extern (pending 0x20004000 0x80)
     = (Inr (), (pending 0x20004000 0x80)\<lparr>trace := [acknowledgeInterrupt 3 4], user := [3]\<rparr>)"
proof -
  let ?s = "pending 0x20004000 0x80"
  let ?intS = "proc0IRQctrl_intS ?s"
  have core: "CurrentCore ?s < 2"
    by (simp add: pending_def boot_def)
  have cb: "pinCallbacks ?s (CurrentCore ?s) = Some (\<lambda>p u. u @ [p])"
    by (simp add: pending_def boot_def)
  have bank: "?intS = (if CurrentCore ?s = 0 then proc0IRQctrl_intS ?s else proc1IRQctrl_intS ?s)"
    by (simp add: pending_def boot_def)
  have pin: "(3::nat) < NUMBANK0_GPIOS"
    by (simp add: NUMBANK0_GPIOS_def)
  have ch: "getIntChange rp2040_extern 3 (?intS (3 div 8)) = 4"
    by code_simp
  have "getIntChange rp2040_extern 0 (?intS (0 div 8)) = 0"
       "getIntChange rp2040_extern 1 (?intS (1 div 8)) = 0"
       "getIntChange rp2040_extern 2 (?intS (2 div 8)) = 0"
    by code_simp+
  then have lower: "\<forall>q<3. getIntChange rp2040_extern q (?intS (q div 8)) = 0"
    by (auto simp: numeral_3_eq_3 numeral_2_eq_2 less_Suc_eq)
  from ch have "getIntChange rp2040_extern 3 (?intS (3 div 8)) \<noteq> 0" by simp
  from gpioirqHandler_services_lowest_pin [OF core cb bank pin this lower]
  have "gpioirqHandler rp2040_extern ?s =
     (Inr (), ?s\<lparr>trace := trace ?s @ [acknowledgeInterrupt 3 4], user := user ?s @ [3]\<rparr>)"
    unfolding ch by simp
  moreover have "trace ?s = []" "user ?s = []" by (simp_all add: pending_def boot_def)
  ultimately show ?thesis by simp
qed

end
